theory Spec2Isabelle
  imports Main "HOL-Library.Char_ord" "HOL-Library.List_Lexorder"
begin

section \<open>The ordered index engine: \<open>BinarySearch\<close> (src/src/types.ts, lines 363-422)\<close>

text \<open>
  \<open>BinarySearch<T>\<close> holds a reference to an array and bisects it with a caller-supplied
  comparator \<open>compare: (n: T) => number\<close>. The array is a list, the comparator a function
  into \<open>int\<close> (only the sign of its answer is read), indices are \<open>int\<close> because
  \<open>right\<close> starts at \<open>length - 1\<close>, which is \<open>-1\<close> on the empty array.
\<close>

record BinarySearchResult =
  rank :: int
  isExactMatch :: bool

text \<open>
  The \<open>while (true)\<close> loop of \<open>_search\<close>, with \<open>left\<close> and \<open>right\<close> as
  arguments. \<open>Math.floor((left + right) / 2)\<close> is \<open>div 2\<close>. The array is read at
  \<open>mid\<close> only when \<open>left \<le> mid \<le> right\<close>; every caller passes \<open>0 \<le> left\<close> and
  \<open>right\<close> starts below the length, so the read is in range.
\<close>

function BinarySearch_loop ::
  "('a \<Rightarrow> int) \<Rightarrow> 'a list \<Rightarrow> int \<Rightarrow> int \<Rightarrow> BinarySearchResult" where
  "BinarySearch_loop compare sortedArray left right =
     (if left > right then \<lparr>rank = left, isExactMatch = False\<rparr>
      else
        (let mid = (left + right) div 2;
             compareResult = compare (sortedArray ! nat mid)
         in if compareResult < 0 then BinarySearch_loop compare sortedArray (mid + 1) right
            else if compareResult > 0 then BinarySearch_loop compare sortedArray left (mid - 1)
            else \<lparr>rank = mid, isExactMatch = True\<rparr>))"
  by pat_completeness auto
termination
  by (relation "measure (\<lambda>(c, a, l, r). nat (r - l + 1))") auto

declare BinarySearch_loop.simps [simp del]

definition BinarySearch_search ::
  "('a \<Rightarrow> int) \<Rightarrow> 'a list \<Rightarrow> int \<Rightarrow> BinarySearchResult" where
  "BinarySearch_search compare sortedArray left =
     BinarySearch_loop compare sortedArray left (int (length sortedArray) - 1)"

definition BinarySearch_find :: "('a \<Rightarrow> int) \<Rightarrow> 'a list \<Rightarrow> 'a option" where
  "BinarySearch_find compare sortedArray =
     (let result = BinarySearch_search compare sortedArray 0
      in if isExactMatch result then Some (sortedArray ! nat (rank result)) else None)"

definition BinarySearch_rank :: "('a \<Rightarrow> int) \<Rightarrow> 'a list \<Rightarrow> int" where
  "BinarySearch_rank compare sortedArray = rank (BinarySearch_search compare sortedArray 0)"

text \<open>
  \<open>Array.prototype.slice(start, end)\<close>: a negative index counts from the end, both are
  clamped to the length, and an end at or before the start gives the empty array.
\<close>

definition slice :: "'a list \<Rightarrow> int \<Rightarrow> int \<Rightarrow> 'a list" where
  "slice arr start end =
     (let len = int (length arr);
          k = (if start < 0 then max (len + start) 0 else min start len);
          final = (if end < 0 then max (len + end) 0 else min end len)
      in take (nat (final - k)) (drop (nat k) arr))"

definition BinarySearch_range ::
  "('a \<Rightarrow> int) \<Rightarrow> ('a \<Rightarrow> int) \<Rightarrow> 'a list \<Rightarrow> 'a list" where
  "BinarySearch_range compareLower compareUpper sortedArray =
     (let rankLower = BinarySearch_rank compareLower sortedArray
      in slice sortedArray rankLower
           (rank (BinarySearch_search compareUpper sortedArray (rankLower + 1))))"


text \<open>
  \<open>Array.prototype.splice(i, 0, x)\<close> and \<open>splice(i, 1)\<close>, for \<open>0 \<le> i\<close>; an index
  past the end is clamped to it, as \<open>take\<close> and \<open>drop\<close> do.
\<close>

definition spliceInsert :: "'a list \<Rightarrow> nat \<Rightarrow> 'a \<Rightarrow> 'a list" where
  "spliceInsert arr i x = take i arr @ x # drop i arr"

definition spliceDelete :: "'a list \<Rightarrow> nat \<Rightarrow> 'a list" where
  "spliceDelete arr i = take i arr @ drop (Suc i) arr"

text \<open>\<open>Array.prototype.indexOf\<close>: the first index holding \<open>x\<close>, or \<open>-1\<close>.\<close>

fun indexOf :: "'a list \<Rightarrow> 'a \<Rightarrow> int" where
  "indexOf [] x = - 1"
| "indexOf (y # ys) x =
     (if y = x then 0 else (let i = indexOf ys x in if i = - 1 then - 1 else i + 1))"

section \<open>The suffix index: \<open>SuffixArray\<close> (src/src/types.ts, lines 424-570)\<close>

text \<open>
  A node is \<open>{ key: string, items: T[] }\<close>; the index holds the node array, the collator,
  the key-generation function and the case flag. Its \<open>BinarySearch\<close> member refers to the
  same array object, so the search functions are applied to \<open>nodeArray\<close>. Strings are
  \<open>string\<close>; items are compared by \<open>=\<close> where the source uses \<open>indexOf\<close> and a
  \<open>Set\<close>. The array holds each node object once, so a node object is identified by its
  position in the array.

  \<open>Intl.Collator\<close> and \<open>String.prototype.toLowerCase\<close> are the platform's. The
  collator is a field of the index, as in the source; the lower-casing function is
  carried beside it as the field \<open>toLowerCase\<close>, and \<open>SuffixArray_new\<close> takes both as
  arguments. Nothing is assumed of either in the definitions.

  For the examples, \<open>codeUnitCompare\<close> is the three-way comparison by character code and
  \<open>asciiLowerCase\<close> lower-cases the letters \<open>A\<close> to \<open>Z\<close>: on the ASCII keys of the
  examples they do what the platform's functions do.
\<close>

record 'a SuffixArrayNode =
  key :: string
  items :: "'a list"

record 'a SuffixArray =
  nodeArray :: "'a SuffixArrayNode list"
  collator :: "string \<Rightarrow> string \<Rightarrow> int"
  toLowerCase :: "string \<Rightarrow> string"
  suffixDelegate :: "'a \<Rightarrow> string list"
  caseSensitive :: bool

definition codeUnitCompare :: "string \<Rightarrow> string \<Rightarrow> int" where
  "codeUnitCompare a b = (if a < b then - 1 else if a = b then 0 else 1)"

definition asciiLowerCase :: "string \<Rightarrow> string" where
  "asciiLowerCase text =
     map (\<lambda>c. if CHR ''A'' \<le> c \<and> c \<le> CHR ''Z'' then char_of (of_char c + (32::nat)) else c)
       text"

definition SuffixArray_new ::
  "(string \<Rightarrow> string \<Rightarrow> int) \<Rightarrow> (string \<Rightarrow> string) \<Rightarrow> ('a \<Rightarrow> string list) \<Rightarrow> bool
   \<Rightarrow> 'a SuffixArray" where
  "SuffixArray_new platformCollator platformLowerCase delegate sensitive =
     \<lparr>nodeArray = [], collator = platformCollator, toLowerCase = platformLowerCase,
      suffixDelegate = delegate, caseSensitive = sensitive\<rparr>"

text \<open>\<open>let lcText = this._caseSensitive ? text : text.toLowerCase()\<close>\<close>

definition lcText :: "'a SuffixArray \<Rightarrow> string \<Rightarrow> string" where
  "lcText this text = (if caseSensitive this then text else toLowerCase this text)"

definition nodeFind :: "'a SuffixArray \<Rightarrow> string \<Rightarrow> 'a SuffixArrayNode option" where
  "nodeFind this text =
     BinarySearch_find (\<lambda>n. collator this (lcText this text) (key n)) (nodeArray this)"

definition insertNode :: "'a SuffixArray \<Rightarrow> 'a SuffixArrayNode \<Rightarrow> 'a SuffixArray" where
  "insertNode this node =
     (let rank = BinarySearch_rank (\<lambda>n. collator this (key node) (key n)) (nodeArray this)
      in this\<lparr>nodeArray := spliceInsert (nodeArray this) (nat rank) node\<rparr>)"

text \<open>
  \<open>_deleteNode(node)\<close> for the node object at position \<open>at\<close>: the identity test
  \<open>this._nodeArray[rank] === node\<close> holds exactly when the rank found is that position.
\<close>

definition deleteNode :: "'a SuffixArray \<Rightarrow> nat \<Rightarrow> 'a SuffixArray" where
  "deleteNode this at =
     (let node = nodeArray this ! at;
          rank = BinarySearch_rank (\<lambda>n. collator this (key node) (key n)) (nodeArray this)
      in if rank = int at
         then this\<lparr>nodeArray := spliceDelete (nodeArray this) (nat rank)\<rparr>
         else this)"

text \<open>
  One pass of the loop of \<open>add\<close>. \<open>_nodeFind\<close> returns a reference to the array member
  at the rank of its search, so \<open>node.items.push(item)\<close> is an update of the array at
  that rank. The new node's key is the suffix as given: only the probe is lower-cased.
\<close>

definition add_suffix :: "'a \<Rightarrow> string \<Rightarrow> 'a SuffixArray \<Rightarrow> 'a SuffixArray" where
  "add_suffix item suffix this =
     (let found = BinarySearch_search (\<lambda>n. collator this (lcText this suffix) (key n))
                    (nodeArray this) 0
      in if isExactMatch found
         then (let at = nat (rank found); node = nodeArray this ! at
               in this\<lparr>nodeArray :=
                         (nodeArray this)[at := node\<lparr>items := items node @ [item]\<rparr>]\<rparr>)
         else insertNode this \<lparr>key = suffix, items = [item]\<rparr>)"

definition SuffixArray_add :: "'a SuffixArray \<Rightarrow> 'a \<Rightarrow> 'a SuffixArray" where
  "SuffixArray_add this item = fold (add_suffix item) (suffixDelegate this item) this"

text \<open>One pass of the loop of \<open>remove\<close>; \<open>continue\<close> leaves the index as it is.\<close>

definition remove_suffix :: "'a \<Rightarrow> string \<Rightarrow> 'a SuffixArray \<Rightarrow> 'a SuffixArray" where
  "remove_suffix item suffix this =
     (let found = BinarySearch_search (\<lambda>n. collator this (lcText this suffix) (key n))
                    (nodeArray this) 0
      in if \<not> isExactMatch found then this
         else (let at = nat (rank found); node = nodeArray this ! at;
                   i = indexOf (items node) item
               in if i = - 1 then this
                  else (let node' = node\<lparr>items := spliceDelete (items node) (nat i)\<rparr>;
                            this' = this\<lparr>nodeArray := (nodeArray this)[at := node']\<rparr>
                        in if items node' = [] then deleteNode this' at else this')))"

definition SuffixArray_remove :: "'a SuffixArray \<Rightarrow> 'a \<Rightarrow> 'a SuffixArray" where
  "SuffixArray_remove this item = fold (remove_suffix item) (suffixDelegate this item) this"

definition nodeMatch :: "'a SuffixArray \<Rightarrow> string \<Rightarrow> 'a SuffixArrayNode list" where
  "nodeMatch this text =
     (let lc = lcText this text
      in BinarySearch_range
           (\<lambda>n. collator this lc (key n))
           (\<lambda>n. if take (length lc) (key n) = lc then 1 else - 1)
           (nodeArray this))"

text \<open>
  \<open>matches\<close> is a \<open>Set\<close>, read back by \<open>Array.from\<close> in insertion order.
  \<open>Set.prototype.add.apply(matches, nodes[n].items)\<close> calls \<open>add\<close> with the items as its
  argument list, and \<open>add\<close> reads its first argument only: each node contributes its
  first item. (On an empty item list the call adds \<open>undefined\<close>; a well-formed
  index, see \<open>wellFormed\<close>, has no node with an empty item list.)
\<close>

definition setAdd :: "'a list \<Rightarrow> 'a \<Rightarrow> 'a list" where
  "setAdd matches x = (if x \<in> set matches then matches else matches @ [x])"

definition SuffixArray_match :: "'a SuffixArray \<Rightarrow> string \<Rightarrow> 'a list" where
  "SuffixArray_match this text =
     fold (\<lambda>n matches. case items n of [] \<Rightarrow> matches | x # _ \<Rightarrow> setAdd matches x)
       (nodeMatch this text) []"

section \<open>Trees and visitors (src/src/types.ts, lines 29-63 and 100-244)\<close>

text \<open>
  \<open>traverse\<close> reads a node's value and its owned child list only, never the parent
  back-reference: for it a tree is the datatype below. A visitor callback acts on the
  rest of the program's state, of type \<open>'s\<close>: it is a function from the state to the new
  state (and \<open>preOrder\<close>'s answer). An optional callback is an optional field; \<open>Some\<close>
  stands for what \<open>visitor.hasOwnProperty\<close> tests.
\<close>

datatype 'a Tree = Tree (nodeValue: 'a) (children: "'a Tree list")

text \<open>
  \<open>Event<T>\<close>: \<open>subscribe\<close> pushes a handler (the unsubscribe function it returns is
  left out), \<open>trigger\<close> calls the handlers in order. A handler, like a callback, is a
  function on the state; the visitor's cancellation event carries \<open>null\<close>, so a handler
  takes no further argument.
\<close>

record 's Event =
  subscribed :: "('s \<Rightarrow> 's) list"




record ('a, 's) TreeVisitor =
  haltTraverse :: "'s Event option"
  preOrder :: "('a Tree \<Rightarrow> 's \<Rightarrow> bool \<times> 's) option"
  inOrder :: "('a Tree \<Rightarrow> nat \<Rightarrow> 's \<Rightarrow> 's) option"
  postOrder :: "('a Tree \<Rightarrow> 's \<Rightarrow> 's) option"

fun traverse :: "('a, 's) TreeVisitor \<Rightarrow> 'a Tree \<Rightarrow> 's \<Rightarrow> 's" where
  "traverse visitor (Tree v cs) =
     (\<lambda>s. let (descend, s1) = (case preOrder visitor of
                                 None \<Rightarrow> (False, s)
                               | Some pre \<Rightarrow> pre (Tree v cs) s);
               s2 = (if cs \<noteq> [] \<and> descend then fold (traverse visitor) cs s1 else s1)
           in case postOrder visitor of
                None \<Rightarrow> s2
              | Some post \<Rightarrow> post (Tree v cs) s2)"

text \<open>
  \<open>previousSibling\<close> reads the parent back-reference and looks the node up in its
  parent's child list by object identity: here the nodes are objects in a store, a
  reference is an address, and \<open>indexOf\<close> compares addresses.
\<close>

type_synonym ref = nat

record 'a TreeObject =
  obj_value :: 'a
  obj_children :: "ref list"
  obj_parent :: "ref option"

definition previousSibling :: "(ref \<Rightarrow> 'a TreeObject) \<Rightarrow> ref \<Rightarrow> ref option" where
  "previousSibling store this =
     (case obj_parent (store this) of
        None \<Rightarrow> None
      | Some parent \<Rightarrow>
          (let i = indexOf (obj_children (store parent)) this
           in if i > 0 then Some (obj_children (store parent) ! nat i) else None))"

section \<open>\<open>MultiVisitor\<close> (src/src/types.ts, lines 292-361)\<close>

text \<open>
  \<open>_visitors\<close> is declared and never assigned: it is \<open>undefined\<close> (\<open>None\<close>) until
  something assigns an array to it, and reading \<open>push\<close> or \<open>length\<close> of \<open>undefined\<close>
  throws a \<open>TypeError\<close>. An entry pairs a component with the node it declined at, or
  \<open>null\<close>. \<open>shouldDescend\<close> calls \<open>v[0].shouldDescend(t)\<close>, which the interface
  \<open>TreeVisitor\<close> does not declare: a component is a visitor with that further optional
  member, and calling it on a component that lacks it throws a \<open>TypeError\<close> too.
\<close>

datatype error = TypeError

record ('a, 's) ComponentVisitor = "('a, 's) TreeVisitor" +
  shouldDescend :: "('a Tree \<Rightarrow> 's \<Rightarrow> bool \<times> 's) option"

record ('a, 's) MultiVisitor =
  visitors :: "(('a, 's) ComponentVisitor \<times> 'a Tree option) list option"

definition MultiVisitor_add ::
  "('a, 's) MultiVisitor \<Rightarrow> ('a, 's) ComponentVisitor \<Rightarrow> error + ('a, 's) MultiVisitor" where
  "MultiVisitor_add this v =
     (case visitors this of
        None \<Rightarrow> Inl TypeError
      | Some vs \<Rightarrow> Inr (this\<lparr>visitors := Some (vs @ [(v, None)])\<rparr>))"

text \<open>The constructor's loop over its argument, stopped by the first throw.\<close>

fun MultiVisitor_addAll ::
  "('a, 's) MultiVisitor \<Rightarrow> ('a, 's) ComponentVisitor list \<Rightarrow> error + ('a, 's) MultiVisitor" where
  "MultiVisitor_addAll this [] = Inr this"
| "MultiVisitor_addAll this (v # vs) =
     (case MultiVisitor_add this v of
        Inl e \<Rightarrow> Inl e
      | Inr this' \<Rightarrow> MultiVisitor_addAll this' vs)"

definition MultiVisitor_new ::
  "('a, 's) ComponentVisitor list \<Rightarrow> error + ('a, 's) MultiVisitor" where
  "MultiVisitor_new vs = MultiVisitor_addAll \<lparr>visitors = None\<rparr> vs"

text \<open>
  The loop of \<open>shouldDescend\<close> over the entries, with \<open>descend\<close> as accumulator; it
  returns the answer, the entries with their new marks, and the state the components
  left.
\<close>

fun shouldDescend_loop ::
  "'a Tree \<Rightarrow> (('a, 's) ComponentVisitor \<times> 'a Tree option) list \<Rightarrow> bool \<Rightarrow> 's
   \<Rightarrow> error + (bool \<times> (('a, 's) ComponentVisitor \<times> 'a Tree option) list \<times> 's)" where
  "shouldDescend_loop t [] descend s = Inr (descend, [], s)"
| "shouldDescend_loop t ((v0, Some u) # vs) descend s =
     (case shouldDescend_loop t vs descend s of
        Inl e \<Rightarrow> Inl e
      | Inr (d, vs', s') \<Rightarrow> Inr (d, (v0, Some u) # vs', s'))"
| "shouldDescend_loop t ((v0, None) # vs) descend s =
     (case shouldDescend v0 of
        None \<Rightarrow> Inl TypeError
      | Some f \<Rightarrow>
          (let (answer, s1) = f t s
           in if answer
              then (case shouldDescend_loop t vs True s1 of
                      Inl e \<Rightarrow> Inl e
                    | Inr (d, vs', s') \<Rightarrow> Inr (d, (v0, None) # vs', s'))
              else (case shouldDescend_loop t vs descend s1 of
                      Inl e \<Rightarrow> Inl e
                    | Inr (d, vs', s') \<Rightarrow> Inr (d, (v0, Some t) # vs', s'))))"

definition MultiVisitor_shouldDescend ::
  "('a, 's) MultiVisitor \<Rightarrow> 'a Tree \<Rightarrow> 's
   \<Rightarrow> error + (bool \<times> ('a, 's) MultiVisitor \<times> 's)" where
  "MultiVisitor_shouldDescend this t s =
     (case visitors this of
        None \<Rightarrow> Inl TypeError
      | Some vs \<Rightarrow>
          (case shouldDescend_loop t vs False s of
             Inl e \<Rightarrow> Inl e
           | Inr (descend, vs', s') \<Rightarrow> Inr (descend, this\<lparr>visitors := Some vs'\<rparr>, s')))"

section \<open>Specification vocabulary\<close>

subsection \<open>What the comparator must be\<close>

text \<open>
  \<open>_search\<close> moves \<open>left\<close> past \<open>mid\<close> on a negative answer and \<open>right\<close> before it on
  a positive one. An array is ascending for a comparator when the signs of the answers
  never decrease along it: first the elements answered negative (below the probe), then
  those answered zero (equal to it), then those answered positive (above it).
\<close>

definition ascending :: "('a \<Rightarrow> int) \<Rightarrow> 'a list \<Rightarrow> bool" where
  "ascending compare S \<longleftrightarrow> sorted (map (\<lambda>n. sgn (compare n)) S)"

text \<open>
  The comparator of a probe key \<open>k\<close> over a linear order: the three-way comparison of
  the element \<open>n\<close> against \<open>k\<close>, negative when the element is below the probe.
\<close>

definition probe :: "'a::linorder \<Rightarrow> 'a \<Rightarrow> int" where
  "probe k n = (if n < k then - 1 else if n = k then 0 else 1)"

text \<open>What a search returns, over the window that starts at \<open>l0\<close>.\<close>

definition searchPost ::
  "('a \<Rightarrow> int) \<Rightarrow> 'a list \<Rightarrow> int \<Rightarrow> BinarySearchResult \<Rightarrow> bool" where
  "searchPost c S l0 res \<longleftrightarrow>
     (if isExactMatch res
      then l0 \<le> rank res \<and> rank res < int (length S) \<and> c (S ! nat (rank res)) = 0
      else l0 \<le> rank res \<and> rank res \<le> int (length S)
           \<and> (\<forall>i. l0 \<le> i \<and> i < rank res \<longrightarrow> c (S ! nat i) < 0)
           \<and> (\<forall>i. rank res \<le> i \<and> i < int (length S) \<longrightarrow> c (S ! nat i) > 0))"

subsection \<open>Answers of the components of a composite visitor\<close>

text \<open>
  The answers that the still-active components (those whose mark is \<open>null\<close>) give at a
  node, in the order of the list, each asked in the state its predecessor left.
\<close>

fun activeAnswers ::
  "'a Tree \<Rightarrow> (('a, 's) ComponentVisitor \<times> 'a Tree option) list \<Rightarrow> 's \<Rightarrow> bool list" where
  "activeAnswers t [] s = []"
| "activeAnswers t ((v0, Some u) # vs) s = activeAnswers t vs s"
| "activeAnswers t ((v0, None) # vs) s =
     (case shouldDescend v0 of
        None \<Rightarrow> []
      | Some f \<Rightarrow> fst (f t s) # activeAnswers t vs (snd (f t s)))"

text \<open>Every still-active component has a \<open>shouldDescend\<close> member to call.\<close>

definition answering :: "(('a, 's) ComponentVisitor \<times> 'a Tree option) list \<Rightarrow> bool" where
  "answering vs \<longleftrightarrow> list_all (\<lambda>(v0, mark). mark = None \<longrightarrow> shouldDescend v0 \<noteq> None) vs"

subsection \<open>Example visitors and trees\<close>

datatype 'a Callback = PreOrder 'a | PostOrder 'a | HaltRaised

text \<open>A visitor with a \<open>postOrder\<close> callback only, which logs the node.\<close>

definition postOnly :: "(nat, nat Callback list) TreeVisitor" where
  "postOnly = \<lparr>haltTraverse = None, preOrder = None, inOrder = None,
               postOrder = Some (\<lambda>t log. log @ [PostOrder (nodeValue t)])\<rparr>"



subsection \<open>Observing the callbacks of a traversal\<close>






subsection \<open>Example components and stores\<close>

text \<open>Components that answer a constant.\<close>

definition answers :: "bool \<Rightarrow> (nat, unit) ComponentVisitor" where
  "answers b = \<lparr>haltTraverse = None, preOrder = None, inOrder = None, postOrder = None,
                shouldDescend = Some (\<lambda>t s. (b, s))\<rparr>"

text \<open>A store with a parent at \<open>0\<close> whose children are the objects at \<open>1\<close> and \<open>2\<close>.\<close>

definition family :: "ref \<Rightarrow> nat TreeObject" where
  "family r =
     (if r = 0 then \<lparr>obj_value = 10, obj_children = [1, 2], obj_parent = None\<rparr>
      else \<lparr>obj_value = 10 + r, obj_children = [], obj_parent = Some 0\<rparr>)"

subsection \<open>Well-formed suffix indexes\<close>

text \<open>
  What is asked of the platform's collator is what ECMAScript asks of a comparison
  function, that it be consistent: the answer for \<open>(b, a)\<close> has the opposite sign of the
  answer for \<open>(a, b)\<close>, and \<open>at most\<close> is transitive. It may answer zero on strings that
  differ, as \<open>Intl.Collator\<close> does on strings it deems equivalent.
\<close>

definition consistentCollator :: "(string \<Rightarrow> string \<Rightarrow> int) \<Rightarrow> bool" where
  "consistentCollator cmp \<longleftrightarrow>
     (\<forall>a b. cmp a b < 0 \<longleftrightarrow> 0 < cmp b a)
     \<and> (\<forall>a b c. cmp a b \<le> 0 \<and> cmp b c \<le> 0 \<longrightarrow> cmp a c \<le> 0)"

text \<open>
  \<open>_insertNode\<close> passes \<open>compare(node.key, n.key)\<close> to a search that moves right on a
  negative answer: a new key goes to the right of every greater key, and the node array
  is kept in descending order of its keys, no two of them equal for the collator.
\<close>

definition keysDescending :: "(string \<Rightarrow> string \<Rightarrow> int) \<Rightarrow> 'a SuffixArrayNode list \<Rightarrow> bool" where
  "keysDescending cmp nodes \<longleftrightarrow> sorted_wrt (\<lambda>m n. 0 < cmp (key m) (key n)) nodes"

text \<open>
  The invariant of an index: keys strictly descending for a consistent collator, and no
  node with an empty item list. It holds of the new index, and \<open>add\<close> and \<open>remove\<close>
  keep it for every item whose keys the case flag leaves as they are, so of every index
  that is case-sensitive (\<open>wellFormed_new\<close>, \<open>wellFormed_add\<close>, \<open>wellFormed_remove\<close>).
\<close>

definition wellFormed :: "'a SuffixArray \<Rightarrow> bool" where
  "wellFormed this \<longleftrightarrow>
     consistentCollator (collator this)
     \<and> keysDescending (collator this) (nodeArray this)
     \<and> list_all (\<lambda>n. items n \<noteq> []) (nodeArray this)"


text \<open>
  What one pass of the loop of \<open>remove\<close> is to achieve for the key \<open>k\<close>: one occurrence of
  the item leaves the item list of the node of \<open>k\<close>, and a node left empty leaves the
  array.
\<close>

definition removeFrom ::
  "(string \<Rightarrow> string \<Rightarrow> int) \<Rightarrow> 'a \<Rightarrow> string \<Rightarrow> 'a SuffixArrayNode list
   \<Rightarrow> 'a SuffixArrayNode list" where
  "removeFrom cmp item k nodes =
     filter (\<lambda>n. items n \<noteq> [])
       (map (\<lambda>n. if cmp k (key n) = 0 then n\<lparr>items := remove1 item (items n)\<rparr> else n) nodes)"

subsection \<open>Example indexes\<close>



definition abcIndex :: "nat SuffixArray" where
  "abcIndex =
     SuffixArray_add (SuffixArray_new codeUnitCompare asciiLowerCase (\<lambda>item. [''abc'']) True) 7"

definition upperIndex :: "nat SuffixArray" where
  "upperIndex =
     SuffixArray_add (SuffixArray_new codeUnitCompare asciiLowerCase (\<lambda>item. [''A'']) False) 7"

section \<open>Properties of \<open>BinarySearch\<close>\<close>

subsection \<open>The bisection is correct on an ascending array\<close>

lemma ascending_neg:
  assumes "ascending c S" "i \<le> j" "j < length S" "c (S ! j) < 0"
  shows "c (S ! i) < 0"
proof -
  have "sgn (c (S ! i)) \<le> sgn (c (S ! j))"
    using assms(1-3) unfolding ascending_def
    using sorted_nth_mono[of "map (\<lambda>n. sgn (c n)) S" i j] by simp
  with assms(4) show ?thesis by (simp add: sgn_if split: if_splits)
qed

lemma ascending_pos:
  assumes "ascending c S" "i \<le> j" "j < length S" "c (S ! i) > 0"
  shows "c (S ! j) > 0"
proof -
  have "sgn (c (S ! i)) \<le> sgn (c (S ! j))"
    using assms(1-3) unfolding ascending_def
    using sorted_nth_mono[of "map (\<lambda>n. sgn (c n)) S" i j] by simp
  with assms(4) show ?thesis by (simp add: sgn_if split: if_splits)
qed

lemma loop_spec:
  assumes "ascending c S" "0 \<le> l0" "l0 \<le> l" "r < int (length S)" "l \<le> r + 1"
    and "\<forall>i. l0 \<le> i \<and> i < l \<longrightarrow> c (S ! nat i) < 0"
    and "\<forall>i. r < i \<and> i < int (length S) \<longrightarrow> c (S ! nat i) > 0"
  shows "searchPost c S l0 (BinarySearch_loop c S l r)"
  using assms
proof (induction c S l r rule: BinarySearch_loop.induct)
  case (1 c S l r)
  show ?case
  proof (cases "l > r")
    case True
    with "1.prems" have "l = r + 1" by simp
    with True "1.prems" show ?thesis
      by (subst BinarySearch_loop.simps) (simp add: searchPost_def)
  next
    case False
    define mid where "mid = (l + r) div 2"
    have mid: "l \<le> mid" "mid \<le> r" "0 \<le> mid" "nat mid < length S"
      using False "1.prems"(2-4) by (auto simp: mid_def)
    consider (lt) "c (S ! nat mid) < 0" | (gt) "c (S ! nat mid) > 0" | (eq) "c (S ! nat mid) = 0"
      by linarith
    then show ?thesis
    proof cases
      case lt
      have below: "\<forall>i. l0 \<le> i \<and> i < mid + 1 \<longrightarrow> c (S ! nat i) < 0"
      proof (intro allI impI)
        fix i assume "l0 \<le> i \<and> i < mid + 1"
        then have "nat i \<le> nat mid" by linarith
        from ascending_neg[OF "1.prems"(1) this mid(4) lt] show "c (S ! nat i) < 0" .
      qed
      have "searchPost c S l0 (BinarySearch_loop c S (mid + 1) r)"
        using "1.IH"(1)[OF False mid_def refl lt "1.prems"(1,2) _ "1.prems"(4) _ below "1.prems"(7)]
          mid "1.prems"(3) by simp
      with False lt show ?thesis
        by (subst BinarySearch_loop.simps) (simp add: mid_def Let_def)
    next
      case gt
      have above: "\<forall>i. mid - 1 < i \<and> i < int (length S) \<longrightarrow> c (S ! nat i) > 0"
      proof (intro allI impI)
        fix i assume a: "mid - 1 < i \<and> i < int (length S)"
        then have "nat mid \<le> nat i" "nat i < length S" using mid by auto
        from ascending_pos[OF "1.prems"(1) this gt] show "c (S ! nat i) > 0" .
      qed
      have ngt: "\<not> c (S ! nat mid) < 0" using gt by simp
      have "searchPost c S l0 (BinarySearch_loop c S l (mid - 1))"
        using "1.IH"(2)[OF False mid_def refl ngt gt "1.prems"(1,2,3) _ _ "1.prems"(6) above]
          mid "1.prems"(4) by simp
      with False gt show ?thesis
        by (subst BinarySearch_loop.simps) (simp add: mid_def Let_def)
    next
      case eq
      with False mid "1.prems"(3) show ?thesis
        by (subst BinarySearch_loop.simps) (simp add: mid_def Let_def searchPost_def)
    qed
  qed
qed

lemma search_spec:
  assumes "ascending c S"
  shows "searchPost c S 0 (BinarySearch_search c S 0)"
  unfolding BinarySearch_search_def
  by (rule loop_spec[OF assms]) simp_all

lemma searchPost_no_zero:
  assumes "searchPost c S 0 res" "\<not> isExactMatch res" "x \<in> set S"
  shows "c x \<noteq> 0"
proof -
  from assms(3) obtain i where i: "i < length S" "S ! i = x"
    by (auto simp: in_set_conv_nth)
  from assms(1,2) have lo: "\<forall>j. 0 \<le> j \<and> j < rank res \<longrightarrow> c (S ! nat j) < 0"
    and hi: "\<forall>j. rank res \<le> j \<and> j < int (length S) \<longrightarrow> c (S ! nat j) > 0"
    by (simp_all add: searchPost_def)
  show ?thesis
  proof (cases "int i < rank res")
    case True
    with lo have "c (S ! nat (int i)) < 0" by (metis of_nat_0_le_iff)
    with i show ?thesis by simp
  next
    case False
    with i have "rank res \<le> int i \<and> int i < int (length S)" by simp
    with hi have "c (S ! nat (int i)) > 0" by blast
    with i show ?thesis by simp
  qed
qed

lemma ascending_probe:
  assumes "sorted S"
  shows "ascending (probe k) S"
proof -
  have "mono (\<lambda>n. sgn (probe k n))"
    by (rule monoI) (auto simp: probe_def)
  with assms show ?thesis
    unfolding ascending_def by (simp add: sorted_map mono_def sorted_wrt_mono_rel[of S "(\<le>)"])
qed

text \<open>
  C1. On an array that is ascending for the comparator, \<open>find\<close> returns an element of
  the array that the comparator answers zero for whenever the array has one, and returns
  null (\<open>None\<close>) exactly when the array has none.
\<close>

theorem BinarySearch_find_correct:
  assumes "ascending compare S"
  shows "case BinarySearch_find compare S of
           Some x \<Rightarrow> x \<in> set S \<and> compare x = 0
         | None \<Rightarrow> \<forall>x\<in>set S. compare x \<noteq> 0"
proof -
  let ?res = "BinarySearch_search compare S 0"
  have post: "searchPost compare S 0 ?res" by (rule search_spec[OF assms])
  show ?thesis
  proof (cases "isExactMatch ?res")
    case True
    with post have "0 \<le> rank ?res" "rank ?res < int (length S)"
      "compare (S ! nat (rank ?res)) = 0"
      by (simp_all add: searchPost_def)
    moreover from this have "S ! nat (rank ?res) \<in> set S" by simp
    ultimately show ?thesis using True by (simp add: BinarySearch_find_def)
  next
    case False
    with searchPost_no_zero[OF post] show ?thesis
      by (simp add: BinarySearch_find_def)
  qed
qed

theorem BinarySearch_find_correct_witness:
  "ascending (probe (3::int)) [1, 3, 5]
   \<and> (case BinarySearch_find (probe 3) [1, 3, 5 :: int] of
         Some x \<Rightarrow> x \<in> set [1, 3, 5] \<and> probe (3::int) x = 0
       | None \<Rightarrow> \<forall>x\<in>set [1, 3, 5]. probe (3::int) x \<noteq> 0)
   \<and> BinarySearch_find (probe 3) [1, 3, 5 :: int] = Some 3"
proof -
  have a: "ascending (probe (3::int)) [1, 3, 5]"
    by (simp add: ascending_def probe_def)
  have f: "BinarySearch_find (probe 3) [1, 3, 5 :: int] = Some 3"
    by (simp add: BinarySearch_find_def BinarySearch_search_def BinarySearch_loop.simps probe_def)
  from a BinarySearch_find_correct[OF a] f show ?thesis by simp
qed

text \<open>
  The orientation of the comparator matters. A comparator that answers negative when the
  probe is below the element, as \<open>collator.compare(probe, element)\<close> does, is ascending
  for a descending array, not for an ascending one, on which \<open>find\<close> then misses keys
  that are present.
\<close>

lemma BinarySearch_find_reversed_comparator:
  "sorted [1, 2, 3 :: int] \<and> \<not> ascending (\<lambda>n. probe n (1::int)) [1, 2, 3]
   \<and> BinarySearch_find (\<lambda>n. probe n (1::int)) [1, 2, 3] = None
   \<and> ascending (\<lambda>n. probe n (1::int)) [3, 2, 1]
   \<and> BinarySearch_find (\<lambda>n. probe n (1::int)) [3, 2, 1] = Some 1"
proof -
  have "BinarySearch_find (\<lambda>n. probe n (1::int)) [1, 2, 3] = None"
    "BinarySearch_find (\<lambda>n. probe n (1::int)) [3, 2, 1] = Some 1"
    by code_simp+
  then show ?thesis by (simp add: ascending_def probe_def)
qed

subsection \<open>What \<open>rank\<close> returns\<close>

lemma searchPost_below:
  assumes "searchPost c S l0 res" "\<not> isExactMatch res" "0 \<le> l0" "nat l0 \<le> i"
    "i < nat (rank res)"
  shows "c (S ! i) < 0"
proof -
  from assms(3-5) have "l0 \<le> int i \<and> int i < rank res" by linarith
  with assms(1,2) have "c (S ! nat (int i)) < 0"
    unfolding searchPost_def by presburger
  then show ?thesis by simp
qed

lemma searchPost_above:
  assumes "searchPost c S l0 res" "\<not> isExactMatch res" "0 \<le> l0" "nat (rank res) \<le> i"
    "i < length S"
  shows "c (S ! i) > 0"
proof -
  from assms(1,2) have "l0 \<le> rank res" by (simp add: searchPost_def)
  with assms(3-5) have "rank res \<le> int i \<and> int i < int (length S)" by linarith
  with assms(1,2) have "c (S ! nat (int i)) > 0"
    unfolding searchPost_def by presburger
  then show ?thesis by simp
qed

lemma searchPost_exact:
  assumes "searchPost c S l0 res" "isExactMatch res" "0 \<le> l0"
  shows "nat (rank res) < length S" "c (S ! nat (rank res)) = 0" "l0 \<le> rank res"
  using assms by (auto simp: searchPost_def)

lemma searchPost_bounds:
  assumes "searchPost c S l0 res" "0 \<le> l0"
  shows "l0 \<le> rank res" "rank res \<le> int (length S)"
  using assms by (auto simp: searchPost_def split: if_splits)

lemma probe_neg: "probe k n < 0 \<longleftrightarrow> n < k"
  by (simp add: probe_def)

lemma probe_pos: "probe k n > 0 \<longleftrightarrow> k < n"
  by (auto simp: probe_def)

lemma probe_zero: "probe k n = 0 \<longleftrightarrow> n = k"
  by (simp add: probe_def)

lemma sorted_spliceInsert:
  fixes k :: "'a::linorder"
  assumes "sorted S" "\<forall>x\<in>set (take n S). x \<le> k" "\<forall>x\<in>set (drop n S). k \<le> x"
  shows "sorted (spliceInsert S n k)"
proof -
  have "sorted (take n S @ drop n S)" using assms(1) by simp
  then have "sorted (take n S)" "sorted (drop n S)"
    unfolding sorted_append by blast+
  with assms(2,3) show ?thesis
    unfolding spliceInsert_def sorted_append by fastforce
qed

lemma count_list_two:
  assumes "count_list S k \<le> 1" "i < j" "j < length S" "S ! i = k"
  shows "S ! j \<noteq> k"
proof
  assume eq: "S ! j = k"
  have S: "S = take j S @ S ! j # drop (Suc j) S"
    using assms(3) by (rule id_take_nth_drop)
  have "k \<in> set (take j S)"
    using assms(2,3,4) by (auto simp: in_set_conv_nth intro!: exI[of _ i])
  then have "count_list (take j S) k \<ge> 1"
    by (metis count_list_0_iff less_one not_le)
  moreover have "count_list S k = count_list (take j S) k + count_list (S ! j # drop (Suc j) S) k"
    by (subst S) (simp only: count_list_append)
  ultimately show False using assms(1) eq by simp
qed

text \<open>
  C2, as the code has it. On a sorted array \<open>rank\<close> returns an index at which inserting
  the probe key keeps the array sorted. It is the smallest such index, the lower bound,
  when the array holds the key at most once; among several elements equal to the key it
  is the index of the one the bisection meets first.
\<close>

theorem BinarySearch_rank_insertion:
  fixes k :: "'a::linorder"
  assumes "sorted S"
  shows "0 \<le> BinarySearch_rank (probe k) S
     \<and> BinarySearch_rank (probe k) S \<le> int (length S)
     \<and> sorted (spliceInsert S (nat (BinarySearch_rank (probe k) S)) k)
     \<and> (count_list S k \<le> 1 \<longrightarrow>
          (\<forall>i < nat (BinarySearch_rank (probe k) S). \<not> sorted (spliceInsert S i k)))"
proof -
  let ?res = "BinarySearch_search (probe k) S 0"
  let ?r = "rank ?res"
  have post: "searchPost (probe k) S 0 ?res"
    by (rule search_spec[OF ascending_probe[OF assms]])
  have r: "BinarySearch_rank (probe k) S = ?r" by (simp add: BinarySearch_rank_def)
  have bounds: "0 \<le> ?r" "?r \<le> int (length S)"
    using searchPost_bounds[OF post] by simp_all
  have le: "\<forall>x\<in>set (take (nat ?r) S). x \<le> k"
  proof
    fix x assume "x \<in> set (take (nat ?r) S)"
    then obtain i where i: "i < nat ?r" "i < length S" "x = S ! i"
      by (auto simp: in_set_conv_nth)
    show "x \<le> k"
    proof (cases "isExactMatch ?res")
      case True
      from searchPost_exact[OF post True] have "nat ?r < length S" "S ! nat ?r = k"
        by (simp_all add: probe_zero)
      with i assms show ?thesis using sorted_nth_mono[of S i "nat ?r"] by simp
    next
      case False
      from searchPost_below[OF post False _ _ i(1)] i show ?thesis
        by (simp add: probe_neg)
    qed
  qed
  have ge: "\<forall>x\<in>set (drop (nat ?r) S). k \<le> x"
  proof
    fix x assume "x \<in> set (drop (nat ?r) S)"
    then obtain i where i: "nat ?r \<le> i" "i < length S" "x = S ! i"
      by (auto simp: in_set_conv_nth) (metis le_add1 add.commute less_diff_conv)
    show "k \<le> x"
    proof (cases "isExactMatch ?res")
      case True
      from searchPost_exact[OF post True] have "nat ?r < length S" "S ! nat ?r = k"
        by (simp_all add: probe_zero)
      with i assms show ?thesis using sorted_nth_mono[of S "nat ?r" i] by simp
    next
      case False
      from searchPost_above[OF post False _ i(1,2)] i show ?thesis
        by (simp add: probe_pos)
    qed
  qed
  have lt: "count_list S k \<le> 1 \<longrightarrow> (\<forall>i < nat ?r. S ! i < k)"
  proof (intro impI allI)
    fix i assume c: "count_list S k \<le> 1" and i: "i < nat ?r"
    show "S ! i < k"
    proof (cases "isExactMatch ?res")
      case True
      from searchPost_exact[OF post True] have m: "nat ?r < length S" "S ! nat ?r = k"
        by (simp_all add: probe_zero)
      with i assms have "S ! i \<le> k" using sorted_nth_mono[of S i "nat ?r"] by simp
      moreover have "S ! i \<noteq> k"
        using count_list_two[OF c i m(1)] m(2) by blast
      ultimately show ?thesis by simp
    next
      case False
      from searchPost_below[OF post False _ _ i] show ?thesis
        by (simp add: probe_neg)
    qed
  qed
  have ins: "sorted (spliceInsert S (nat ?r) k)"
    by (rule sorted_spliceInsert[OF assms le ge])
  have smallest: "count_list S k \<le> 1 \<longrightarrow> (\<forall>i < nat ?r. \<not> sorted (spliceInsert S i k))"
  proof (intro impI allI)
    fix i assume c: "count_list S k \<le> 1" and i: "i < nat ?r"
    with lt have less: "S ! i < k" by simp
    from i bounds have "i < length S" by linarith
    then have "S ! i \<in> set (drop i S)"
      by (metis Cons_nth_drop_Suc list.set_intros(1))
    with less have "\<exists>x\<in>set (drop i S). \<not> k \<le> x"
      by (intro bexI[of _ "S ! i"]) simp_all
    then show "\<not> sorted (spliceInsert S i k)"
      unfolding spliceInsert_def sorted_append by auto
  qed
  from bounds ins smallest show ?thesis unfolding r by simp
qed

theorem BinarySearch_rank_insertion_witness:
  "sorted [1, 3, 5 :: int]
   \<and> BinarySearch_rank (probe (4::int)) [1, 3, 5] = 2
   \<and> sorted (spliceInsert [1, 3, 5 :: int] 2 4)
   \<and> count_list [1, 3, 5 :: int] 4 \<le> 1
   \<and> \<not> sorted (spliceInsert [1, 3, 5 :: int] 1 4)
   \<and> \<not> sorted (spliceInsert [1, 3, 5 :: int] 0 4)"
proof -
  have s: "sorted [1, 3, 5 :: int]" by simp
  have r: "BinarySearch_rank (probe (4::int)) [1, 3, 5] = 2" by code_simp
  have c: "count_list [1, 3, 5 :: int] 4 \<le> 1" by simp
  from BinarySearch_rank_insertion[OF s, of 4] r c
  have "sorted (spliceInsert [1, 3, 5 :: int] 2 4)"
    and "\<forall>i<2. \<not> sorted (spliceInsert [1, 3, 5 :: int] i 4)"
    by simp_all
  then show ?thesis using s r c by simp
qed

text \<open>
  C2 as the claim states it fails where the key occurs more than once: on \<open>[1, 1, 1]\<close>
  the first probe, at the middle, matches and \<open>rank\<close> is \<open>1\<close>, while inserting at
  \<open>0\<close> keeps the array sorted as well.
\<close>

theorem BinarySearch_rank_not_leftmost:
  "sorted [1, 1, 1 :: int]
   \<and> BinarySearch_rank (probe (1::int)) [1, 1, 1] = 1
   \<and> sorted (spliceInsert [1, 1, 1 :: int] 0 1)
   \<and> probe (1::int) ([1, 1, 1] ! 0) = 0"
proof -
  have "BinarySearch_rank (probe (1::int)) [1, 1, 1] = 1" by code_simp
  then show ?thesis by (simp add: spliceInsert_def probe_def)
qed

subsection \<open>What \<open>range\<close> returns\<close>

lemma filter_window:
  assumes "\<forall>i<length S. P (S ! i) \<longleftrightarrow> a \<le> i \<and> i < b"
  shows "filter P S = take (b - a) (drop a S)"
  using assms
proof (induction S arbitrary: a b)
  case Nil
  then show ?case by simp
next
  case (Cons x xs)
  from Cons.prems have hd: "P x \<longleftrightarrow> a = 0 \<and> 0 < b" by auto
  from Cons.prems have tl: "\<forall>i<length xs. P (xs ! i) \<longleftrightarrow> a \<le> Suc i \<and> Suc i < b" by auto
  show ?case
  proof (cases a)
    case 0
    with tl have "\<forall>i<length xs. P (xs ! i) \<longleftrightarrow> 0 \<le> i \<and> i < b - 1" by auto
    from Cons.IH[OF this] hd 0 show ?thesis by (cases b) auto
  next
    case (Suc a')
    with tl have "\<forall>i<length xs. P (xs ! i) \<longleftrightarrow> a' \<le> i \<and> i < b - 1" by auto
    from Cons.IH[OF this] hd Suc show ?thesis by (cases b) auto
  qed
qed

lemma filter_two:
  assumes "length (filter P S) \<le> 1" "i < j" "j < length S" "P (S ! i)"
  shows "\<not> P (S ! j)"
proof
  assume Pj: "P (S ! j)"
  have S: "S = take j S @ S ! j # drop (Suc j) S"
    using assms(3) by (rule id_take_nth_drop)
  have "S ! i \<in> set (take j S)"
    using assms(2,3) by (auto simp: in_set_conv_nth intro!: exI[of _ i])
  with assms(4) have "filter P (take j S) \<noteq> []"
    by (auto simp: filter_empty_conv)
  then have "length (filter P (take j S)) \<ge> 1"
    by (cases "filter P (take j S)") simp_all
  moreover have "length (filter P S)
      = length (filter P (take j S)) + length (filter P (S ! j # drop (Suc j) S))"
    by (subst S) (simp only: filter_append length_append)
  ultimately show False using assms(1) Pj by simp
qed

lemma ascending_nonpos:
  assumes "ascending c S" "i \<le> j" "j < length S" "c (S ! j) \<le> 0"
  shows "c (S ! i) \<le> 0"
  using ascending_pos[OF assms(1-3)] assms(4) by fastforce

lemma ascending_nonneg:
  assumes "ascending c S" "i \<le> j" "j < length S" "0 \<le> c (S ! i)"
  shows "0 \<le> c (S ! j)"
  using ascending_neg[OF assms(1-3)] assms(4) by fastforce

text \<open>
  With at most one element answered zero, the rank is the number of elements answered
  negative.
\<close>

lemma rank_lower_bound:
  assumes asc: "ascending c S" and one: "length (filter (\<lambda>x. c x = 0) S) \<le> 1"
  defines "L \<equiv> BinarySearch_rank c S"
  shows "0 \<le> L" "L \<le> int (length S)"
    "\<forall>i < nat L. c (S ! i) < 0" "\<forall>i. nat L \<le> i \<and> i < length S \<longrightarrow> 0 \<le> c (S ! i)"
proof -
  let ?res = "BinarySearch_search c S 0"
  have post: "searchPost c S 0 ?res" by (rule search_spec[OF asc])
  have L: "L = rank ?res" by (simp add: L_def BinarySearch_rank_def)
  show "0 \<le> L" "L \<le> int (length S)" using searchPost_bounds[OF post] L by simp_all
  show "\<forall>i < nat L. c (S ! i) < 0"
  proof (intro allI impI)
    fix i assume i: "i < nat L"
    show "c (S ! i) < 0"
    proof (cases "isExactMatch ?res")
      case True
      from searchPost_exact[OF post True] L have m: "nat L < length S" "c (S ! nat L) = 0"
        by simp_all
      from ascending_nonpos[OF asc _ m(1)] i m(2) have "c (S ! i) \<le> 0" by simp
      moreover have "c (S ! i) \<noteq> 0"
        using filter_two[OF one i m(1)] m(2) by blast
      ultimately show ?thesis by simp
    next
      case False
      from searchPost_below[OF post False _ _ i[unfolded L]] show ?thesis by simp
    qed
  qed
  show "\<forall>i. nat L \<le> i \<and> i < length S \<longrightarrow> 0 \<le> c (S ! i)"
  proof (intro allI impI)
    fix i assume i: "nat L \<le> i \<and> i < length S"
    show "0 \<le> c (S ! i)"
    proof (cases "isExactMatch ?res")
      case True
      from searchPost_exact[OF post True] L have m: "nat L < length S" "c (S ! nat L) = 0"
        by simp_all
      from ascending_nonneg[OF asc _ _, of "nat L" i] i m(2) show ?thesis by simp
    next
      case False
      from searchPost_above[OF post False _ _ _, of i] i L show ?thesis by simp
    qed
  qed
qed

text \<open>
  A search started at \<open>l0\<close>, on an array with at most one element answered zero: from
  \<open>l0\<close> up to the rank the elements are answered negative, from the rank on zero or
  positive.
\<close>

lemma search_from_bound:
  assumes asc: "ascending c S" and one: "length (filter (\<lambda>x. c x = 0) S) \<le> 1"
    and l0: "0 \<le> l0" "l0 \<le> int (length S)"
  defines "U \<equiv> rank (BinarySearch_search c S l0)"
  shows "l0 \<le> U" "U \<le> int (length S)"
    "\<forall>i. nat l0 \<le> i \<and> i < nat U \<longrightarrow> c (S ! i) < 0"
    "\<forall>i. nat U \<le> i \<and> i < length S \<longrightarrow> 0 \<le> c (S ! i)"
proof -
  let ?res = "BinarySearch_search c S l0"
  have post: "searchPost c S l0 ?res"
    unfolding BinarySearch_search_def
    using l0 by (intro loop_spec[OF asc]) auto
  have U: "U = rank ?res" by (simp add: U_def)
  show "l0 \<le> U" "U \<le> int (length S)" using searchPost_bounds[OF post l0(1)] U by simp_all
  show "\<forall>i. nat l0 \<le> i \<and> i < nat U \<longrightarrow> c (S ! i) < 0"
  proof (intro allI impI)
    fix i assume i: "nat l0 \<le> i \<and> i < nat U"
    show "c (S ! i) < 0"
    proof (cases "isExactMatch ?res")
      case True
      from searchPost_exact[OF post True l0(1)] U have m: "nat U < length S" "c (S ! nat U) = 0"
        by simp_all
      from ascending_nonpos[OF asc _ m(1)] i m(2) have "c (S ! i) \<le> 0" by simp
      moreover have "c (S ! i) \<noteq> 0"
        using filter_two[OF one _ m(1), of i] i m(2) by blast
      ultimately show ?thesis by simp
    next
      case False
      from searchPost_below[OF post False l0(1), of i] i U show ?thesis by simp
    qed
  qed
  show "\<forall>i. nat U \<le> i \<and> i < length S \<longrightarrow> 0 \<le> c (S ! i)"
  proof (intro allI impI)
    fix i assume i: "nat U \<le> i \<and> i < length S"
    show "0 \<le> c (S ! i)"
    proof (cases "isExactMatch ?res")
      case True
      from searchPost_exact[OF post True l0(1)] U have m: "nat U < length S" "c (S ! nat U) = 0"
        by simp_all
      from ascending_nonneg[OF asc _ _, of "nat U" i] i m(2) show ?thesis by simp
    next
      case False
      from searchPost_above[OF post False l0(1), of i] i U show ?thesis by simp
    qed
  qed
qed

text \<open>
  C4, as the code has it. An element satisfies the pair of comparators when
  \<open>compareLower\<close> answers it zero or positive (it is at or above the lower probe) and
  \<open>compareUpper\<close> answers it negative (it is below the upper probe). Let the array be
  ascending for both, let each comparator answer zero on at most one element, and let
  either some element satisfy both or every element be below the lower probe. Then
  \<open>range\<close> returns exactly the elements that satisfy both, in order; it is the slice from
  the rank of the first search to the rank of the second search, which is started one
  past the first rank and ends past it.
\<close>

theorem BinarySearch_range_block:
  assumes ascL: "ascending compareLower S" and ascU: "ascending compareUpper S"
    and one: "length (filter (\<lambda>x. compareLower x = 0) S) \<le> 1"
    and oneU: "length (filter (\<lambda>x. compareUpper x = 0) S) \<le> 1"
    and block: "list_ex (\<lambda>x. 0 \<le> compareLower x \<and> compareUpper x < 0) S
                \<or> list_all (\<lambda>x. compareLower x < 0) S"
  shows "BinarySearch_range compareLower compareUpper S
           = filter (\<lambda>x. 0 \<le> compareLower x \<and> compareUpper x < 0) S
       \<and> BinarySearch_range compareLower compareUpper S
           = slice S (BinarySearch_rank compareLower S)
               (rank (BinarySearch_search compareUpper S (BinarySearch_rank compareLower S + 1)))
       \<and> BinarySearch_rank compareLower S
           < rank (BinarySearch_search compareUpper S (BinarySearch_rank compareLower S + 1))"
proof -
  define L where "L = BinarySearch_rank compareLower S"
  define U where "U = rank (BinarySearch_search compareUpper S (L + 1))"
  note lb = rank_lower_bound[OF ascL one, folded L_def]
  have range: "BinarySearch_range compareLower compareUpper S = slice S L U"
    by (simp add: BinarySearch_range_def L_def U_def Let_def)
  have "BinarySearch_range compareLower compareUpper S
           = filter (\<lambda>x. 0 \<le> compareLower x \<and> compareUpper x < 0) S \<and> L < U"
  proof (cases "L = int (length S)")
    case True
    then have U: "U = L + 1"
      by (simp add: U_def BinarySearch_search_def BinarySearch_loop.simps)
    with True have "slice S L U = []" by (simp add: slice_def)
    moreover have "filter (\<lambda>x. 0 \<le> compareLower x \<and> compareUpper x < 0) S = []"
    proof -
      have "\<forall>x\<in>set S. compareLower x < 0"
      proof
        fix x assume "x \<in> set S"
        then obtain i where "i < length S" "S ! i = x" by (auto simp: in_set_conv_nth)
        with lb(3) True show "compareLower x < 0" by auto
      qed
      then show ?thesis by (auto simp: filter_empty_conv)
    qed
    ultimately show ?thesis using range U by simp
  next
    case False
    with lb have Llt: "nat L < length S" "0 \<le> L" by simp_all
    then have l0: "0 \<le> L + 1" "L + 1 \<le> int (length S)" by simp_all
    note ub = search_from_bound[OF ascU oneU l0, folded U_def]
    have atL: "compareUpper (S ! nat L) < 0"
    proof -
      from block Llt lb(4) have "\<exists>x\<in>set S. 0 \<le> compareLower x \<and> compareUpper x < 0"
        unfolding list_all_iff list_ex_iff by (metis le_refl nth_mem not_le)
      then obtain j where j: "j < length S" "0 \<le> compareLower (S ! j)"
        "compareUpper (S ! j) < 0"
        by (auto simp: in_set_conv_nth)
      from lb(3) j have "nat L \<le> j" by (metis not_le)
      from ascending_neg[OF ascU this j(1,3)] show ?thesis .
    qed
    have char: "\<forall>i<length S. (0 \<le> compareLower (S ! i) \<and> compareUpper (S ! i) < 0)
                  \<longleftrightarrow> nat L \<le> i \<and> i < nat U"
    proof (intro allI impI)
      fix i assume i: "i < length S"
      show "(0 \<le> compareLower (S ! i) \<and> compareUpper (S ! i) < 0)
              \<longleftrightarrow> nat L \<le> i \<and> i < nat U"
      proof (cases "i < nat L")
        case True
        with lb(3) show ?thesis by auto
      next
        case nl: False
        then have ge: "0 \<le> compareLower (S ! i)" using lb(4) i by simp
        show ?thesis
        proof (cases "i = nat L")
          case True
          with atL ge ub(1) Llt show ?thesis by simp
        next
          case ne: False
          with nl Llt have gt: "nat (L + 1) \<le> i" by linarith
          show ?thesis
          proof (cases "i < nat U")
            case True
            with ub(3) gt ge nl show ?thesis by simp
          next
            case False
            with ub(4) i have "0 \<le> compareUpper (S ! i)" by simp
            with False show ?thesis by simp
          qed
        qed
      qed
    qed
    have "slice S L U = take (nat U - nat L) (drop (nat L) S)"
      using ub(1,2) Llt by (simp add: slice_def nat_diff_distrib)
    with filter_window[OF char] range ub(1) show ?thesis by simp
  qed
  with range show ?thesis unfolding L_def U_def by simp
qed

theorem BinarySearch_range_block_witness:
  "ascending (probe (3::int)) [1, 3, 5, 7] \<and> ascending (probe (7::int)) [1, 3, 5, 7]
   \<and> length (filter (\<lambda>x. probe (3::int) x = 0) [1, 3, 5, 7]) \<le> 1
   \<and> length (filter (\<lambda>x. probe (7::int) x = 0) [1, 3, 5, 7]) \<le> 1
   \<and> list_ex (\<lambda>x. 0 \<le> probe (3::int) x \<and> probe (7::int) x < 0) [1, 3, 5, 7]
   \<and> BinarySearch_range (probe 3) (probe 7) [1, 3, 5, 7 :: int] = [3, 5]
   \<and> BinarySearch_rank (probe 3) [1, 3, 5, 7 :: int] = 1
   \<and> rank (BinarySearch_search (probe 7) [1, 3, 5, 7 :: int] 2) = 3"
proof -
  have a: "ascending (probe (3::int)) [1, 3, 5, 7]" "ascending (probe (7::int)) [1, 3, 5, 7]"
    by (simp_all add: ascending_def probe_def)
  have o: "length (filter (\<lambda>x. probe (3::int) x = 0) [1, 3, 5, 7]) \<le> 1"
    by (simp add: probe_def)
  have z: "length (filter (\<lambda>x. probe (7::int) x = 0) [1, 3, 5, 7]) \<le> 1"
    by (simp add: probe_def)
  have b: "list_ex (\<lambda>x. 0 \<le> probe (3::int) x \<and> probe (7::int) x < 0) [1, 3, 5, 7]"
    by (simp add: probe_def)
  have r: "BinarySearch_rank (probe 3) [1, 3, 5, 7 :: int] = 1"
    "rank (BinarySearch_search (probe 7) [1, 3, 5, 7 :: int] 2) = 3"
    by code_simp+
  from BinarySearch_range_block[OF a o z disjI1[OF b]]
  have "BinarySearch_range (probe 3) (probe 7) [1, 3, 5, 7 :: int]
      = filter (\<lambda>x. 0 \<le> probe (3::int) x \<and> probe (7::int) x < 0) [1, 3, 5, 7]"
    by blast
  also have "\<dots> = [3, 5]" by (simp add: probe_def)
  finally show ?thesis using a o z b r by simp
qed

text \<open>
  C4 as the claim states it fails where several elements equal a probe: each search
  returns the match it meets first. On \<open>[1, 1, 1, 2, 2, 2]\<close> with the probes \<open>1\<close> and
  \<open>2\<close> the first search stops at index \<open>2\<close> and the second at index \<open>4\<close>: of the
  three elements that satisfy both comparators two are left out, and an element equal to
  the upper probe is returned.
\<close>

theorem BinarySearch_range_misses_equal_elements:
  "ascending (probe (1::int)) [1, 1, 1, 2, 2, 2] \<and> ascending (probe (2::int)) [1, 1, 1, 2, 2, 2]
   \<and> filter (\<lambda>x. 0 \<le> probe (1::int) x \<and> probe (2::int) x < 0) [1, 1, 1, 2, 2, 2] = [1, 1, 1]
   \<and> BinarySearch_range (probe 1) (probe 2) [1, 1, 1, 2, 2, 2 :: int] = [1, 2]"
proof -
  have "BinarySearch_range (probe 1) (probe 2) [1, 1, 1, 2, 2, 2 :: int] = [1, 2]" by code_simp
  then show ?thesis by (simp add: ascending_def probe_def)
qed

text \<open>Each of the two causes on its own.\<close>

lemma BinarySearch_range_equal_to_lower_probe:
  "filter (\<lambda>x. 0 \<le> probe (1::int) x \<and> probe (2::int) x < 0) [1, 1, 1] = [1, 1, 1]
   \<and> BinarySearch_range (probe 1) (probe 2) [1, 1, 1 :: int] = [1, 1]"
proof -
  have "BinarySearch_range (probe 1) (probe 2) [1, 1, 1 :: int] = [1, 1]" by code_simp
  then show ?thesis by (simp add: probe_def)
qed

lemma BinarySearch_range_equal_to_upper_probe:
  "filter (\<lambda>x. 0 \<le> probe (1::int) x \<and> probe (2::int) x < 0) [1, 2, 2, 2] = [1]
   \<and> BinarySearch_range (probe 1) (probe 2) [1, 2, 2, 2 :: int] = [1, 2]"
proof -
  have "BinarySearch_range (probe 1) (probe 2) [1, 2, 2, 2 :: int] = [1, 2]" by code_simp
  then show ?thesis by (simp add: probe_def)
qed

text \<open>
  The second search starts at \<open>rankLower + 1\<close> and its rank is never below its start, so
  the element at \<open>rankLower\<close> is returned without being put to \<open>compareUpper\<close>: where
  no element satisfies both comparators and some element is at or above the lower probe,
  the result is not empty.
\<close>

lemma BinarySearch_range_empty_block:
  "filter (\<lambda>x. 0 \<le> probe (3::int) x \<and> probe (4::int) x < 0) [1, 5] = []
   \<and> BinarySearch_range (probe 3) (probe 4) [1, 5 :: int] = [5]"
proof -
  have "BinarySearch_range (probe 3) (probe 4) [1, 5 :: int] = [5]" by code_simp
  then show ?thesis by (simp add: probe_def)
qed

section \<open>Properties of the traversal\<close>


text \<open>
  C6, as the code has it. \<open>descend\<close> starts \<open>false\<close> and only a \<open>preOrder\<close> callback
  can set it: for a visitor that omits \<open>preOrder\<close> the traversal does not descend. No
  child is visited, and the \<open>postOrder\<close> callback, when present, fires once, for the
  node the traversal started at.
\<close>

theorem traverse_without_preOrder:
  assumes "preOrder visitor = None"
  shows "traverse visitor t s = (case postOrder visitor of None \<Rightarrow> s | Some post \<Rightarrow> post t s)"
  using assms by (cases t) (simp split: option.splits)

theorem traverse_without_preOrder_witness:
  "preOrder postOnly = None
   \<and> traverse postOnly (Tree 1 [Tree 2 [], Tree 3 []]) [] = [PostOrder 1]"
proof -
  have p: "preOrder postOnly = None" by (simp add: postOnly_def)
  from traverse_without_preOrder[OF p, of "Tree 1 [Tree 2 [], Tree 3 []]" "[]"] p
  show ?thesis by (simp add: postOnly_def)
qed

text \<open>
  C6 as the claim states it fails: the visitor \<open>postOnly\<close> omits \<open>preOrder\<close>, and on a
  node with the child \<open>2\<close> its \<open>postOrder\<close> callback never fires for the child.
\<close>

theorem traverse_without_preOrder_skips_children:
  "preOrder postOnly = None
   \<and> PostOrder 2 \<notin> set (traverse postOnly (Tree 1 [Tree 2 []]) [])"
  by (simp add: postOnly_def)









subsection \<open>\<open>previousSibling\<close>\<close>

lemma indexOf_range:
  "indexOf xs x = - 1 \<or> (0 \<le> indexOf xs x \<and> indexOf xs x < int (length xs))"
  by (induction xs) (auto simp: Let_def)

lemma indexOf_nth: "0 \<le> indexOf xs x \<Longrightarrow> xs ! nat (indexOf xs x) = x"
proof (induction xs)
  case Nil
  then show ?case by simp
next
  case (Cons y ys)
  show ?case
  proof (cases "y = x")
    case True
    then show ?thesis by simp
  next
    case False
    with Cons.prems have nn: "indexOf ys x \<noteq> - 1" by (auto simp: Let_def split: if_splits)
    with indexOf_range[of ys x] have "0 \<le> indexOf ys x" by auto
    with Cons.IH False nn show ?thesis by (simp add: Let_def nat_add_distrib)
  qed
qed

text \<open>
  C10. \<open>previousSibling\<close> returns null for a node with no parent and for a node that is
  its parent's first child; for a node at child index \<open>i > 0\<close> it returns the parent's
  child at index \<open>i\<close>, which is the node itself, not the child at \<open>i - 1\<close>.
\<close>

theorem previousSibling_returns_node_itself:
  "(obj_parent (store this) = None \<longrightarrow> previousSibling store this = None)
   \<and> (obj_parent (store this) = Some parent
        \<and> indexOf (obj_children (store parent)) this = 0
      \<longrightarrow> previousSibling store this = None)
   \<and> (obj_parent (store this) = Some parent
        \<and> indexOf (obj_children (store parent)) this = i \<and> 0 < i
      \<longrightarrow> previousSibling store this = Some (obj_children (store parent) ! nat i)
          \<and> obj_children (store parent) ! nat i = this)"
proof (intro conjI impI)
  assume "obj_parent (store this) = None"
  then show "previousSibling store this = None" by (simp add: previousSibling_def)
next
  assume "obj_parent (store this) = Some parent
    \<and> indexOf (obj_children (store parent)) this = 0"
  then show "previousSibling store this = None" by (simp add: previousSibling_def)
next
  assume a: "obj_parent (store this) = Some parent
    \<and> indexOf (obj_children (store parent)) this = i \<and> 0 < i"
  then show "previousSibling store this = Some (obj_children (store parent) ! nat i)"
    by (simp add: previousSibling_def)
  from a indexOf_nth[of "obj_children (store parent)" this]
  show "obj_children (store parent) ! nat i = this" by simp
qed

theorem previousSibling_returns_node_itself_witness:
  "obj_parent (family 0) = None \<and> previousSibling family 0 = None
   \<and> obj_parent (family 1) = Some 0 \<and> indexOf (obj_children (family 0)) 1 = 0
   \<and> previousSibling family 1 = None
   \<and> obj_parent (family 2) = Some 0 \<and> indexOf (obj_children (family 0)) 2 = 1
   \<and> previousSibling family 2 = Some 2"
proof -
  have h: "obj_parent (family 0) = None" "obj_parent (family 1) = Some 0"
    "indexOf (obj_children (family 0)) 1 = 0" "obj_parent (family 2) = Some 0"
    "indexOf (obj_children (family 0)) 2 = 1"
    by (simp_all add: family_def)
  from previousSibling_returns_node_itself[of family 0 0 0] h
  have 0: "previousSibling family 0 = None" by simp
  from previousSibling_returns_node_itself[of family 1 0 0] h
  have 1: "previousSibling family 1 = None" by simp
  from previousSibling_returns_node_itself[of family 2 0 1] h
  have 2: "previousSibling family 2 = Some 2" by simp
  from h 0 1 2 show ?thesis by simp
qed

section \<open>Properties of \<open>MultiVisitor\<close>\<close>

lemma shouldDescend_loop_or:
  assumes "answering vs"
  shows "\<exists>vs' s'. shouldDescend_loop t vs d s
           = Inr (d \<or> foldr (\<or>) (activeAnswers t vs s) False, vs', s')"
  using assms
proof (induction t vs d s rule: shouldDescend_loop.induct)
  case (1 t descend s)
  then show ?case by simp
next
  case (2 t v0 u vs descend s)
  then have "answering vs" by (simp add: answering_def)
  from "2.IH"[OF this] show ?case by auto
next
  case (3 t v0 vs descend s)
  then have a: "answering vs" and "shouldDescend v0 \<noteq> None"
    by (simp_all add: answering_def)
  then obtain f where f: "shouldDescend v0 = Some f" by auto
  obtain answer s1 where r: "f t s = (answer, s1)" by (cases "f t s")
  show ?case
  proof (cases answer)
    case True
    from "3.IH"(1)[OF f refl r[symmetric] True a] f r True show ?thesis by auto
  next
    case False
    from "3.IH"(2)[OF f refl r[symmetric] False a] f r False show ?thesis by auto
  qed
qed

text \<open>
  The loop of \<open>shouldDescend\<close> does compute the OR: on an object whose \<open>_visitors\<close> is
  an array, and whose still-active components all have a \<open>shouldDescend\<close> member, the
  call returns the logical OR of the answers of the still-active components.
\<close>

lemma MultiVisitor_shouldDescend_or_of_answers:
  assumes "visitors this = Some vs" and "answering vs"
  shows "\<exists>this' s'. MultiVisitor_shouldDescend this t s
           = Inr (foldr (\<or>) (activeAnswers t vs s) False, this', s')"
proof -
  from shouldDescend_loop_or[OF assms(2), of t False s]
  obtain vs' s' where "shouldDescend_loop t vs False s
      = Inr (foldr (\<or>) (activeAnswers t vs s) False, vs', s')"
    by auto
  with assms(1) show ?thesis by (simp add: MultiVisitor_shouldDescend_def)
qed

lemma MultiVisitor_shouldDescend_or_example:
  "visitors \<lparr>visitors = Some [(answers False, None), (answers True, None),
                               (answers False, Some (Tree 0 []))]\<rparr>
     = Some [(answers False, None), (answers True, None), (answers False, Some (Tree 0 []))]
   \<and> answering [(answers False, None), (answers True, None), (answers False, Some (Tree 0 []))]
   \<and> activeAnswers (Tree 1 [])
        [(answers False, None), (answers True, None), (answers False, Some (Tree 0 []))] ()
      = [False, True]
   \<and> (\<exists>this' s'. MultiVisitor_shouldDescend
          \<lparr>visitors = Some [(answers False, None), (answers True, None),
                            (answers False, Some (Tree 0 []))]\<rparr> (Tree 1 []) ()
        = Inr (True, this', s'))"
proof -
  let ?vs = "[(answers False, None), (answers True, None), (answers False, Some (Tree 0 []))]"
  have v: "visitors \<lparr>visitors = Some ?vs\<rparr> = Some ?vs" by simp
  have a: "answering ?vs" by (simp add: answering_def answers_def)
  have l: "activeAnswers (Tree 1 []) ?vs () = [False, True]" by (simp add: answers_def)
  from MultiVisitor_shouldDescend_or_of_answers[OF v a, of "Tree 1 []" "()"] l
  have "\<exists>this' s'. MultiVisitor_shouldDescend \<lparr>visitors = Some ?vs\<rparr> (Tree 1 []) ()
          = Inr (True, this', s')"
    by simp
  with v a l show ?thesis by simp
qed

text \<open>
  No object the class builds is of that kind: the constructor returns only for the empty
  list, with \<open>_visitors\<close> undefined, and \<open>add\<close> throws on that object. On every
  composite the code constructs \<open>shouldDescend\<close> throws.
\<close>

lemma MultiVisitor_new_visitors:
  assumes "MultiVisitor_new vs = Inr this"
  shows "visitors this = None"
  using assms by (cases vs) (auto simp: MultiVisitor_new_def MultiVisitor_add_def)

lemma MultiVisitor_shouldDescend_on_constructed:
  assumes "MultiVisitor_new vs = Inr this"
  shows "MultiVisitor_shouldDescend this t s = Inl TypeError"
  using MultiVisitor_new_visitors[OF assms] by (simp add: MultiVisitor_shouldDescend_def)

text \<open>
  C8 says that the composite's should-descend answer is the logical OR of the answers of
  its still-active components. The code does not give that answer: \<open>new MultiVisitor()\<close>
  has no component, the OR of no answers is false, and \<open>shouldDescend\<close> throws a
  \<open>TypeError\<close> at \<open>this._visitors.length\<close>.
\<close>

theorem MultiVisitor_shouldDescend_throws:
  "MultiVisitor_new ([] :: (nat, unit) ComponentVisitor list) = Inr \<lparr>visitors = None\<rparr>
   \<and> foldr (\<or>) (activeAnswers (Tree (1::nat) []) [] ()) False = False
   \<and> MultiVisitor_shouldDescend
        (\<lparr>visitors = None\<rparr> :: (nat, unit) MultiVisitor) (Tree (1::nat) []) ()
      = Inl TypeError"
  by (simp add: MultiVisitor_new_def MultiVisitor_shouldDescend_def)

text \<open>
  C9. The constructor leaves \<open>_visitors\<close> undefined and calls \<open>add\<close> for each given
  visitor: given a non-empty list it throws a \<open>TypeError\<close> at the first \<open>add\<close>. Given the
  empty list it returns an object whose \<open>_visitors\<close> is undefined, on which \<open>add\<close>
  throws likewise.
\<close>

theorem MultiVisitor_new_throws:
  "(vs \<noteq> [] \<longrightarrow> MultiVisitor_new vs = Inl TypeError)
   \<and> MultiVisitor_new [] = Inr \<lparr>visitors = None\<rparr>
   \<and> MultiVisitor_add \<lparr>visitors = None\<rparr> v = Inl TypeError"
  by (cases vs) (simp_all add: MultiVisitor_new_def MultiVisitor_add_def)

theorem MultiVisitor_new_throws_witness:
  "[answers True] \<noteq> []
   \<and> MultiVisitor_new [answers True] = Inl TypeError
   \<and> MultiVisitor_add \<lparr>visitors = None\<rparr> (answers True) = Inl TypeError"
proof -
  have n: "[answers True] \<noteq> []" by simp
  from MultiVisitor_new_throws[of "[answers True]" "answers True"] n show ?thesis by blast
qed

section \<open>Properties of \<open>SuffixArray\<close>\<close>

subsection \<open>Searching a well-formed node array\<close>

text \<open>
  The search in \<open>add_suffix\<close> and \<open>remove_suffix\<close> is the one \<open>_nodeFind\<close> makes:
  \<open>_nodeFind\<close> returns the array member at its rank when the match is exact, and null
  otherwise.
\<close>

lemma nodeFind_search:
  "nodeFind this text =
     (let found = BinarySearch_search (\<lambda>n. collator this (lcText this text) (key n))
                    (nodeArray this) 0
      in if isExactMatch found then Some (nodeArray this ! nat (rank found)) else None)"
  by (simp add: nodeFind_def BinarySearch_find_def)


lemma collator_flip:
  assumes "consistentCollator cmp"
  shows "cmp a b < 0 \<longleftrightarrow> 0 < cmp b a"
  using assms by (simp add: consistentCollator_def)

lemma collator_trans:
  assumes "consistentCollator cmp" "cmp a b \<le> 0" "cmp b c \<le> 0"
  shows "cmp a c \<le> 0"
  using assms unfolding consistentCollator_def by blast

lemma collator_refl:
  assumes "consistentCollator cmp"
  shows "cmp a a = 0"
  using collator_flip[OF assms, of a a] by linarith

lemma collator_zero_sym:
  assumes "consistentCollator cmp" "cmp a b = 0"
  shows "cmp b a = 0"
  using collator_flip[OF assms(1), of a b] collator_flip[OF assms(1), of b a] assms(2)
  by linarith

lemma collator_zero_trans:
  assumes lin: "consistentCollator cmp" and "cmp a b = 0" "cmp b c = 0"
  shows "cmp a c = 0"
proof -
  from collator_trans[OF lin, of a b c] assms(2,3) have "cmp a c \<le> 0" by simp
  moreover from collator_trans[OF lin, of c b a] collator_zero_sym[OF lin assms(2)]
    collator_zero_sym[OF lin assms(3)] have "cmp c a \<le> 0" by simp
  ultimately show ?thesis using collator_flip[OF lin, of a c] by linarith
qed

lemma keysDescending_keys:
  "keysDescending cmp nodes \<longleftrightarrow> sorted_wrt (\<lambda>a b. 0 < cmp a b) (map key nodes)"
  by (simp add: keysDescending_def sorted_wrt_map)

lemma keysDescending_ascending:
  assumes lin: "consistentCollator cmp" and desc: "keysDescending cmp nodes"
  shows "ascending (\<lambda>n. cmp p (key n)) nodes"
proof -
  have step: "sgn (cmp p (key m)) \<le> sgn (cmp p (key n))" if "0 < cmp (key m) (key n)" for m n
  proof (cases "0 < cmp p (key n)")
    case True
    then show ?thesis by (simp add: sgn_if)
  next
    case False
    have "cmp p (key m) < 0"
    proof (rule ccontr)
      assume "\<not> cmp p (key m) < 0"
      with collator_flip[OF lin, of p "key m"] have "cmp (key m) p \<le> 0" by linarith
      from collator_trans[OF lin this, of "key n"] False that show False by simp
    qed
    then show ?thesis by (simp add: sgn_if)
  qed
  have "sorted_wrt (\<lambda>m n. sgn (cmp p (key m)) \<le> sgn (cmp p (key n))) nodes"
    by (rule sorted_wrt_mono_rel[OF _ desc[unfolded keysDescending_def]]) (rule step)
  then show ?thesis by (simp add: ascending_def sorted_wrt_map)
qed

lemma keysDescending_unique:
  assumes lin: "consistentCollator cmp" and desc: "keysDescending cmp nodes"
    and "i < length nodes" "j < length nodes" "cmp (key (nodes ! i)) (key (nodes ! j)) = 0"
  shows "i = j"
proof (rule ccontr)
  assume ne: "i \<noteq> j"
  have strict: "0 < cmp (key (nodes ! a)) (key (nodes ! b))" if "a < b" "b < length nodes" for a b
    using sorted_wrt_nth_less[OF desc[unfolded keysDescending_def] that] .
  from ne consider "i < j" | "j < i" by linarith
  then show False
  proof cases
    case 1
    from strict[OF 1 assms(4)] assms(5) show False by simp
  next
    case 2
    from strict[OF 2 assms(3)] collator_zero_sym[OF lin assms(5)] show False by simp
  qed
qed

text \<open>The search for a key in a well-formed node array.\<close>

lemma nodeSearch_found:
  fixes cmp :: "string \<Rightarrow> string \<Rightarrow> int" and nodes :: "'a SuffixArrayNode list" and k :: string
  assumes lin: "consistentCollator cmp" and desc: "keysDescending cmp nodes"
  defines "found \<equiv> BinarySearch_search (\<lambda>n. cmp k (key n)) nodes 0"
  shows "isExactMatch found
         \<Longrightarrow> nat (rank found) < length nodes \<and> cmp k (key (nodes ! nat (rank found))) = 0"
    and "\<not> isExactMatch found \<Longrightarrow> \<forall>n\<in>set nodes. cmp k (key n) \<noteq> 0"
proof -
  have post: "searchPost (\<lambda>n. cmp k (key n)) nodes 0 found"
    unfolding found_def by (rule search_spec[OF keysDescending_ascending[OF lin desc]])
  {
    assume ex: "isExactMatch found"
    from searchPost_exact[OF post ex]
    show "nat (rank found) < length nodes \<and> cmp k (key (nodes ! nat (rank found))) = 0"
      by simp
  }
  {
    assume nex: "\<not> isExactMatch found"
    show "\<forall>n\<in>set nodes. cmp k (key n) \<noteq> 0"
    proof
      fix n assume "n \<in> set nodes"
      from searchPost_no_zero[OF post nex this] show "cmp k (key n) \<noteq> 0" .
    qed
  }
qed

lemma indexOf_absent: "indexOf xs x = - 1 \<longleftrightarrow> x \<notin> set xs"
proof (induction xs)
  case Nil
  then show ?case by simp
next
  case (Cons y ys)
  from indexOf_range[of ys x] Cons show ?case by (auto simp: Let_def)
qed

lemma spliceDelete_indexOf:
  "indexOf xs x \<noteq> - 1 \<Longrightarrow> spliceDelete xs (nat (indexOf xs x)) = remove1 x xs"
proof (induction xs)
  case Nil
  then show ?case by simp
next
  case (Cons y ys)
  show ?case
  proof (cases "y = x")
    case True
    then show ?thesis by (simp add: spliceDelete_def)
  next
    case False
    with Cons.prems have nn: "indexOf ys x \<noteq> - 1" by (auto simp: Let_def split: if_splits)
    with indexOf_range[of ys x] have ge: "0 \<le> indexOf ys x" by auto
    then have "nat (indexOf ys x + 1) = Suc (nat (indexOf ys x))" by simp
    with Cons.IH[OF nn] False nn show ?thesis
      by (simp add: Let_def spliceDelete_def)
  qed
qed

lemma nodeSearch_rank_nonneg:
  fixes cmp :: "string \<Rightarrow> string \<Rightarrow> int" and nodes :: "'a SuffixArrayNode list"
  assumes lin: "consistentCollator cmp" and desc: "keysDescending cmp nodes"
  shows "0 \<le> rank (BinarySearch_search (\<lambda>n. cmp k (key n)) nodes 0)"
  using searchPost_bounds(1)[OF search_spec[OF keysDescending_ascending[OF lin desc]]] by simp

lemma map_at_unique:
  assumes "at < length nodes" "P (nodes ! at)"
    and "\<forall>j<length nodes. P (nodes ! j) \<longrightarrow> j = at"
  shows "map (\<lambda>n. if P n then g n else n) nodes = nodes[at := g (nodes ! at)]"
proof (rule nth_equalityI)
  show "length (map (\<lambda>n. if P n then g n else n) nodes) = length (nodes[at := g (nodes ! at)])"
    by simp
next
  fix i assume "i < length (map (\<lambda>n. if P n then g n else n) nodes)"
  then have i: "i < length nodes" by simp
  show "map (\<lambda>n. if P n then g n else n) nodes ! i = nodes[at := g (nodes ! at)] ! i"
  proof (cases "i = at")
    case True
    with assms(1,2) show ?thesis by simp
  next
    case False
    with assms(3) i have "\<not> P (nodes ! i)" by blast
    with False i show ?thesis by simp
  qed
qed

lemma filter_update_keep:
  assumes "list_all P nodes" "P n'"
  shows "filter P (nodes[at := n']) = nodes[at := n']"
proof -
  have "set (nodes[at := n']) \<subseteq> insert n' (set nodes)" by (rule set_update_subset_insert)
  with assms have "\<forall>x\<in>set (nodes[at := n']). P x" by (auto simp: list_all_iff)
  then show ?thesis by (simp add: filter_id_conv)
qed

lemma filter_update_drop:
  assumes "list_all P nodes" "\<not> P n'" "at < length nodes"
  shows "filter P (nodes[at := n']) = spliceDelete (nodes[at := n']) at"
proof -
  have upd: "nodes[at := n'] = take at nodes @ n' # drop (Suc at) nodes"
    using assms(3) by (rule upd_conv_take_nth_drop)
  have "\<forall>x\<in>set (take at nodes). P x" "\<forall>x\<in>set (drop (Suc at) nodes). P x"
    using assms(1) by (auto simp: list_all_iff dest: in_set_takeD in_set_dropD)
  then have "filter P (take at nodes) = take at nodes"
    "filter P (drop (Suc at) nodes) = drop (Suc at) nodes"
    by (simp_all add: filter_id_conv)
  with assms(2) have "filter P (nodes[at := n']) = take at nodes @ drop (Suc at) nodes"
    by (simp add: upd)
  moreover have "spliceDelete (nodes[at := n']) at = take at nodes @ drop (Suc at) nodes"
    by (simp add: spliceDelete_def)
  ultimately show ?thesis by simp
qed

lemma keysDescending_update:
  assumes "keysDescending cmp nodes" "at < length nodes" "key n' = key (nodes ! at)"
  shows "keysDescending cmp (nodes[at := n'])"
proof -
  have "map key (nodes[at := n']) = map key nodes"
    using assms(2,3) by (simp add: map_update list_update_same_conv)
  with assms(1) show ?thesis by (simp add: keysDescending_keys)
qed

lemma deleteNode_at:
  assumes lin: "consistentCollator (collator this)"
    and desc: "keysDescending (collator this) (nodeArray this)"
    and at: "at < length (nodeArray this)"
  shows "nodeArray (deleteNode this at) = spliceDelete (nodeArray this) at"
proof -
  let ?nodes = "nodeArray this"
  let ?k = "key (?nodes ! at)"
  let ?found = "BinarySearch_search (\<lambda>n. collator this ?k (key n)) ?nodes 0"
  have ex: "isExactMatch ?found"
  proof (rule ccontr)
    assume "\<not> isExactMatch ?found"
    from nodeSearch_found(2)[OF lin desc this] nth_mem[OF at] collator_refl[OF lin, of ?k]
    show False by blast
  qed
  from nodeSearch_found(1)[OF lin desc ex]
  have r: "nat (rank ?found) < length ?nodes"
    "collator this ?k (key (?nodes ! nat (rank ?found))) = 0"
    by simp_all
  from keysDescending_unique[OF lin desc at r(1) r(2)] have "nat (rank ?found) = at" by simp
  with nodeSearch_rank_nonneg[OF lin desc, of ?k] have "rank ?found = int at" by simp
  then show ?thesis
    by (simp add: deleteNode_def BinarySearch_rank_def Let_def)
qed

lemma remove_suffix_cases:
  fixes this :: "'a SuffixArray"
  defines "found \<equiv> \<lambda>this suffix. BinarySearch_search
      (\<lambda>n. collator this (lcText this suffix) (key n)) (nodeArray this) 0"
  defines "hit \<equiv> \<lambda>this suffix. nodeArray this ! nat (rank (found this suffix))"
  shows "\<not> isExactMatch (found this suffix) \<Longrightarrow> remove_suffix item suffix this = this"
    and "isExactMatch (found this suffix) \<Longrightarrow> indexOf (items (hit this suffix)) item = - 1
         \<Longrightarrow> remove_suffix item suffix this = this"
    and "isExactMatch (found this suffix) \<Longrightarrow> indexOf (items (hit this suffix)) item \<noteq> - 1
         \<Longrightarrow> items (hit this suffix)
               \<noteq> [] \<and> spliceDelete (items (hit this suffix)) (nat (indexOf (items (hit this suffix)) item)) \<noteq> []
         \<Longrightarrow> remove_suffix item suffix this
             = this\<lparr>nodeArray := (nodeArray this)[nat (rank (found this suffix)) :=
                 (hit this suffix)\<lparr>items := spliceDelete (items (hit this suffix))
                    (nat (indexOf (items (hit this suffix)) item))\<rparr>]\<rparr>"
    and "isExactMatch (found this suffix) \<Longrightarrow> indexOf (items (hit this suffix)) item \<noteq> - 1
         \<Longrightarrow> spliceDelete (items (hit this suffix)) (nat (indexOf (items (hit this suffix)) item)) = []
         \<Longrightarrow> remove_suffix item suffix this
             = deleteNode (this\<lparr>nodeArray := (nodeArray this)[nat (rank (found this suffix)) :=
                 (hit this suffix)\<lparr>items := spliceDelete (items (hit this suffix))
                    (nat (indexOf (items (hit this suffix)) item))\<rparr>]\<rparr>)
                 (nat (rank (found this suffix)))"
  unfolding remove_suffix_def found_def hit_def Let_def by simp_all

lemma remove_suffix_nodeArray:
  assumes wf: "wellFormed this" and lc: "lcText this k = k"
  shows "nodeArray (remove_suffix item k this)
       = removeFrom (collator this) item k (nodeArray this)"
proof -
  let ?nodes = "nodeArray this"
  let ?cmp = "collator this"
  let ?found = "BinarySearch_search (\<lambda>n. ?cmp (lcText this k) (key n)) ?nodes 0"
  let ?g = "\<lambda>n. n\<lparr>items := remove1 item (items n)\<rparr>"
  let ?f = "\<lambda>n. if ?cmp k (key n) = 0 then ?g n else n"
  from wf have lin: "consistentCollator ?cmp" and desc: "keysDescending ?cmp ?nodes"
    and ne: "list_all (\<lambda>n. items n \<noteq> []) ?nodes"
    by (simp_all add: wellFormed_def)
  have keep: "filter (\<lambda>n. items n \<noteq> []) ?nodes = ?nodes"
    using ne by (simp add: filter_id_conv list_all_iff)
  show ?thesis
  proof (cases "isExactMatch ?found")
    case False
    from nodeSearch_found(2)[OF lin desc, of k] False lc have "map ?f ?nodes = ?nodes"
      by (intro map_idI) simp
    with keep remove_suffix_cases(1)[OF False] show ?thesis
      by (simp add: removeFrom_def)
  next
    case True
    define at where "at = nat (rank ?found)"
    define node where "node = ?nodes ! at"
    from nodeSearch_found(1)[OF lin desc, of k] True lc
    have at: "at < length ?nodes" "?cmp k (key node) = 0" by (simp_all add: at_def node_def)
    have uniq: "\<forall>j<length ?nodes. ?cmp k (key (?nodes ! j)) = 0 \<longrightarrow> j = at"
    proof (intro allI impI)
      fix j assume j: "j < length ?nodes" "?cmp k (key (?nodes ! j)) = 0"
      from collator_zero_trans[OF lin collator_zero_sym[OF lin j(2)] at(2)]
      have "?cmp (key (?nodes ! j)) (key (?nodes ! at)) = 0" by (simp add: node_def)
      from keysDescending_unique[OF lin desc j(1) at(1) this] show "j = at" .
    qed
    have "map ?f ?nodes = ?nodes[at := ?g (?nodes ! at)]"
      by (rule map_at_unique[where P = "\<lambda>n. ?cmp k (key n) = 0",
            OF at(1) at(2)[unfolded node_def] uniq])
    then have mapped: "map ?f ?nodes = ?nodes[at := ?g node]" by (simp add: node_def)
    show ?thesis
    proof (cases "indexOf (items node) item = - 1")
      case absent: True
      then have "remove1 item (items node) = items node"
        by (simp add: indexOf_absent remove1_idem)
      then have "?g node = node" by simp
      with mapped have "map ?f ?nodes = ?nodes" by (simp add: node_def)
      with keep remove_suffix_cases(2)[OF True absent[unfolded node_def at_def]] show ?thesis
        by (simp add: removeFrom_def)
    next
      case present: False
      define node' where "node' = node\<lparr>items := spliceDelete (items node) (nat (indexOf (items node) item))\<rparr>"
      have node': "node' = ?g node"
        using spliceDelete_indexOf[OF present] by (simp add: node'_def)
      have key': "key node' = key (?nodes ! at)" by (simp add: node'_def node_def)
      have nodeNe: "items node \<noteq> []"
        using ne at(1) by (simp add: list_all_iff node_def)
      show ?thesis
      proof (cases "items node' = []")
        case False
        from filter_update_keep[OF ne, of node' at] False
        have "filter (\<lambda>n. items n \<noteq> []) (?nodes[at := node']) = ?nodes[at := node']" by simp
        with mapped node' have "removeFrom ?cmp item k ?nodes = ?nodes[at := node']"
          by (simp add: removeFrom_def)
        moreover have "remove_suffix item k this = this\<lparr>nodeArray := ?nodes[at := node']\<rparr>"
          using remove_suffix_cases(3)[OF True present[unfolded node_def at_def]] False nodeNe
          by (simp add: node'_def node_def at_def)
        ultimately show ?thesis by simp
      next
        case empty: True
        from filter_update_drop[OF ne _ at(1), of node'] empty
        have "filter (\<lambda>n. items n \<noteq> []) (?nodes[at := node']) = spliceDelete (?nodes[at := node']) at"
          by simp
        with mapped node'
        have spec: "removeFrom ?cmp item k ?nodes = spliceDelete (?nodes[at := node']) at"
          by (simp add: removeFrom_def)
        let ?this' = "this\<lparr>nodeArray := ?nodes[at := node']\<rparr>"
        have "nodeArray (deleteNode ?this' at) = spliceDelete (nodeArray ?this') at"
          using lin keysDescending_update[OF desc at(1) key'] at(1)
          by (intro deleteNode_at) simp_all
        moreover have "remove_suffix item k this = deleteNode ?this' at"
          using remove_suffix_cases(4)[OF True present[unfolded node_def at_def]] empty
          by (simp add: node'_def node_def at_def)
        ultimately show ?thesis using spec by simp
      qed
    qed
  qed
qed

lemma remove_suffix_fields:
  "collator (remove_suffix item k this) = collator this"
  "toLowerCase (remove_suffix item k this) = toLowerCase this"
  "suffixDelegate (remove_suffix item k this) = suffixDelegate this"
  "caseSensitive (remove_suffix item k this) = caseSensitive this"
  by (simp_all add: remove_suffix_def deleteNode_def Let_def)

lemma lcText_remove_suffix: "lcText (remove_suffix item k this) k' = lcText this k'"
  by (simp add: lcText_def remove_suffix_fields)

subsection \<open>The loop of \<open>remove\<close>\<close>





lemma removeFrom_keysDescending:
  assumes "keysDescending cmp nodes"
  shows "keysDescending cmp (removeFrom cmp' item k nodes)"
proof -
  let ?f = "\<lambda>n. if cmp' k (key n) = 0 then n\<lparr>items := remove1 item (items n)\<rparr> else n"
  have "map key (map ?f nodes) = map key nodes" by (induction nodes) auto
  with assms have "keysDescending cmp (map ?f nodes)" by (simp only: keysDescending_keys)
  then show ?thesis
    unfolding removeFrom_def keysDescending_def by (rule sorted_wrt_filter)
qed

lemma remove_suffix_wellFormed:
  assumes wf: "wellFormed this" and lc: "lcText this k = k"
  shows "wellFormed (remove_suffix item k this)"
proof -
  from wf have "keysDescending (collator this) (removeFrom (collator this) item k (nodeArray this))"
    by (intro removeFrom_keysDescending) (simp add: wellFormed_def)
  moreover have "list_all (\<lambda>n. items n \<noteq> []) (removeFrom (collator this) item k (nodeArray this))"
    by (simp add: removeFrom_def list_all_iff)
  ultimately show ?thesis
    using wf by (simp add: wellFormed_def remove_suffix_nodeArray[OF wf lc] remove_suffix_fields)
qed





lemma remove_fold_wellFormed:
  assumes "wellFormed this" "\<forall>k\<in>set ks. lcText this k = k"
  shows "wellFormed (fold (remove_suffix item) ks this)"
  using assms
proof (induction ks arbitrary: this)
  case Nil
  then show ?case by simp
next
  case (Cons k ks)
  from Cons.prems have lc: "lcText this k = k" by simp
  have wf': "wellFormed (remove_suffix item k this)"
    by (rule remove_suffix_wellFormed[OF Cons.prems(1) lc])
  have lc': "\<forall>k'\<in>set ks. lcText (remove_suffix item k this) k' = k'"
    using Cons.prems(2) by (simp add: lcText_remove_suffix)
  from Cons.IH[OF wf' lc'] show ?case by simp
qed


subsection \<open>\<open>add\<close> and \<open>remove\<close> keep an index well-formed\<close>

lemma add_suffix_fields:
  "collator (add_suffix item k this) = collator this"
  "toLowerCase (add_suffix item k this) = toLowerCase this"
  "suffixDelegate (add_suffix item k this) = suffixDelegate this"
  "caseSensitive (add_suffix item k this) = caseSensitive this"
  by (simp_all add: add_suffix_def insertNode_def Let_def)

lemma lcText_add_suffix: "lcText (add_suffix item k this) k' = lcText this k'"
  by (simp add: lcText_def add_suffix_fields)

lemma keysDescending_insert:
  fixes cmp :: "string \<Rightarrow> string \<Rightarrow> int" and nodes :: "'a SuffixArrayNode list"
  assumes lin: "consistentCollator cmp" and desc: "keysDescending cmp nodes"
    and nex: "\<not> isExactMatch (BinarySearch_search (\<lambda>n. cmp (key node) (key n)) nodes 0)"
  shows "keysDescending cmp
           (spliceInsert nodes (nat (BinarySearch_rank (\<lambda>n. cmp (key node) (key n)) nodes)) node)"
proof -
  let ?c = "\<lambda>n. cmp (key node) (key n)"
  let ?res = "BinarySearch_search ?c nodes 0"
  let ?r = "nat (rank ?res)"
  let ?P = "\<lambda>m n. 0 < cmp (key m) (key n)"
  have post: "searchPost ?c nodes 0 ?res"
    by (rule search_spec[OF keysDescending_ascending[OF lin desc]])
  have before: "?P x node" if "x \<in> set (take ?r nodes)" for x
  proof -
    from that obtain i where i: "i < ?r" "i < length nodes" "x = nodes ! i"
      by (auto simp: in_set_conv_nth)
    from searchPost_below[OF post nex _ _ i(1)] i(3) have "cmp (key node) (key x) < 0" by simp
    with collator_flip[OF lin] show ?thesis by simp
  qed
  have after: "?P node y" if "y \<in> set (drop ?r nodes)" for y
  proof -
    from that obtain j where j: "?r \<le> j" "j < length nodes" "y = nodes ! j"
      by (auto simp: in_set_conv_nth) (metis le_add1 add.commute less_diff_conv)
    from searchPost_above[OF post nex _ j(1,2)] j(3) show ?thesis by simp
  qed
  from desc have "sorted_wrt ?P (take ?r nodes @ drop ?r nodes)"
    by (simp add: keysDescending_def)
  then have parts: "sorted_wrt ?P (take ?r nodes)" "sorted_wrt ?P (drop ?r nodes)"
    "\<forall>x\<in>set (take ?r nodes). \<forall>y\<in>set (drop ?r nodes). ?P x y"
    unfolding sorted_wrt_append by blast+
  have "sorted_wrt ?P (take ?r nodes @ node # drop ?r nodes)"
    unfolding sorted_wrt_append using parts before after by auto
  then show ?thesis
    by (simp add: keysDescending_def spliceInsert_def BinarySearch_rank_def)
qed

lemma add_suffix_wellFormed:
  assumes wf: "wellFormed this" and lc: "lcText this k = k"
  shows "wellFormed (add_suffix item k this)"
proof -
  let ?nodes = "nodeArray this"
  let ?cmp = "collator this"
  let ?found = "BinarySearch_search (\<lambda>n. ?cmp k (key n)) ?nodes 0"
  from wf have lin: "consistentCollator ?cmp" and desc: "keysDescending ?cmp ?nodes"
    and ne: "list_all (\<lambda>n. items n \<noteq> []) ?nodes"
    by (simp_all add: wellFormed_def)
  show ?thesis
  proof (cases "isExactMatch ?found")
    case True
    define at where "at = nat (rank ?found)"
    define node' where "node' = (?nodes ! at)\<lparr>items := items (?nodes ! at) @ [item]\<rparr>"
    from nodeSearch_found(1)[OF lin desc True] have at: "at < length ?nodes"
      by (simp add: at_def)
    have eq: "add_suffix item k this = this\<lparr>nodeArray := ?nodes[at := node']\<rparr>"
      using True lc by (simp add: add_suffix_def Let_def at_def node'_def)
    have "keysDescending ?cmp (?nodes[at := node'])"
      by (rule keysDescending_update[OF desc at]) (simp add: node'_def)
    moreover have "list_all (\<lambda>n. items n \<noteq> []) (?nodes[at := node'])"
      using filter_update_keep[OF ne, of node' at]
      by (simp add: node'_def filter_id_conv list_all_iff)
    ultimately show ?thesis using lin by (simp add: eq wellFormed_def)
  next
    case False
    let ?node = "\<lparr>key = k, items = [item]\<rparr>"
    have eq: "add_suffix item k this = insertNode this ?node"
      using False lc by (simp add: add_suffix_def Let_def)
    have "keysDescending ?cmp
        (spliceInsert ?nodes (nat (BinarySearch_rank (\<lambda>n. ?cmp (key ?node) (key n)) ?nodes)) ?node)"
      using False by (intro keysDescending_insert[OF lin desc]) simp
    moreover have "list_all (\<lambda>n. items n \<noteq> []) (spliceInsert ?nodes i ?node)" for i
      using ne by (auto simp: spliceInsert_def list_all_iff dest: in_set_takeD in_set_dropD)
    ultimately show ?thesis using lin by (simp add: eq insertNode_def wellFormed_def Let_def)
  qed
qed

lemma add_fold_wellFormed:
  assumes "wellFormed this" "\<forall>k\<in>set ks. lcText this k = k"
  shows "wellFormed (fold (add_suffix item) ks this)"
  using assms
proof (induction ks arbitrary: this)
  case Nil
  then show ?case by simp
next
  case (Cons k ks)
  from Cons.prems have lc: "lcText this k = k" by simp
  have wf': "wellFormed (add_suffix item k this)"
    by (rule add_suffix_wellFormed[OF Cons.prems(1) lc])
  have lc': "\<forall>k'\<in>set ks. lcText (add_suffix item k this) k' = k'"
    using Cons.prems(2) by (simp add: lcText_add_suffix)
  from Cons.IH[OF wf' lc'] show ?case by simp
qed

text \<open>
  Well-formedness is an invariant: the new index is well-formed, and \<open>add\<close> and
  \<open>remove\<close> keep it so for an item whose keys the case flag leaves as they are: every
  key when the index is case-sensitive, the keys that \<open>toLowerCase\<close> does not change
  otherwise.
\<close>

lemma wellFormed_new:
  "consistentCollator cmp \<Longrightarrow> wellFormed (SuffixArray_new cmp lower delegate sensitive)"
  by (simp add: wellFormed_def SuffixArray_new_def keysDescending_def)

lemma lcText_caseSensitive: "caseSensitive this \<Longrightarrow> lcText this k = k"
  by (simp add: lcText_def)

lemma wellFormed_add:
  assumes "wellFormed this" "list_all (\<lambda>k. lcText this k = k) (suffixDelegate this item)"
  shows "wellFormed (SuffixArray_add this item)"
  unfolding SuffixArray_add_def
  using assms by (intro add_fold_wellFormed) (simp_all add: list_all_iff)

lemma wellFormed_remove:
  assumes "wellFormed this" "list_all (\<lambda>k. lcText this k = k) (suffixDelegate this item)"
  shows "wellFormed (SuffixArray_remove this item)"
  unfolding SuffixArray_remove_def
  using assms by (intro remove_fold_wellFormed) (simp_all add: list_all_iff)

subsection \<open>\<open>remove\<close>\<close>




text \<open>
  In a case-insensitive index \<open>_nodeFind\<close> lower-cases the probe, while \<open>add\<close> stored
  the key as it was given: under a collator that tells \<open>a\<close> from \<open>A\<close> the node of an
  upper-case key is not found again, and \<open>remove\<close> leaves the item where it is.
\<close>

lemma SuffixArray_remove_misses_upper_case_key:
  "caseSensitive upperIndex = False
   \<and> nodeArray upperIndex = [\<lparr>key = ''A'', items = [7]\<rparr>]
   \<and> nodeArray (SuffixArray_remove upperIndex 7) = [\<lparr>key = ''A'', items = [7]\<rparr>]"
  by code_simp

subsection \<open>\<open>match\<close>\<close>

text \<open>
  C3 says that \<open>match(q)\<close> returns an added item for every query \<open>q\<close> that is a prefix
  of one of the item's keys. The code does not do so: here the item \<open>7\<close> is added under
  the key \<open>abc\<close>, the query \<open>ab\<close> is a prefix of that key, and \<open>match\<close> returns
  nothing. The comparators that
  \<open>_nodeMatch\<close> passes to \<open>range\<close> are the wrong way round for \<open>_search\<close>: the lower
  one compares the probe to the key, so the rank of \<open>ab\<close> is past every key that starts
  with it (the array is descending), and the upper one answers \<open>1\<close> on a key with the
  prefix, which moves the search left.
\<close>

theorem SuffixArray_match_misses_prefix:
  "suffixDelegate abcIndex 7 = [''abc'']
   \<and> take (length ''ab'') ''abc'' = ''ab''
   \<and> nodeArray abcIndex = [\<lparr>key = ''abc'', items = [7]\<rparr>]
   \<and> SuffixArray_match abcIndex ''ab'' = []"
  by code_simp

text \<open>
  Of the items that share a key, \<open>match\<close> returns the first only, also for the key
  itself as query.
\<close>

lemma SuffixArray_match_first_item_only:
  "nodeArray (SuffixArray_add (SuffixArray_add
      (SuffixArray_new codeUnitCompare asciiLowerCase (\<lambda>item. [''abc'']) True) (7::nat)) 8)
     = [\<lparr>key = ''abc'', items = [7, 8]\<rparr>]
   \<and> SuffixArray_match (SuffixArray_add (SuffixArray_add
      (SuffixArray_new codeUnitCompare asciiLowerCase (\<lambda>item. [''abc'']) True) (7::nat)) 8)
       ''abc'' = [7]"
  by code_simp

end
